theory Spec2Isabelle
  imports Complex_Main "HOL-Library.Word"
begin

unbundle bit_operations_syntax

section \<open>Go arithmetic\<close>

text \<open>
  Go's \<open>int\<close> is modelled by \<open>int\<close>; \<open>uint64\<close> by \<open>64 word\<close>, \<open>int32\<close> by \<open>32 word\<close> read
  with \<open>sint\<close>. Go's \<open>/\<close> and \<open>%\<close> truncate towards zero, and \<open>uint(x)\<close> of a negative
  \<open>x\<close> wraps to \<open>2^64 + x\<close>; a shift by 64 or more gives 0, which \<open>push_bit\<close> and
  \<open>drop_bit\<close> on \<open>64 word\<close> do as well. A panic is a value \<open>Inl e\<close>.
\<close>

datatype error =
    DimsNotPositive
  | DataLengthMismatch
  | EmptyBundle
  | DimensionMismatch
  | IndexOutOfRange
  | BadCapacity
  | BadThreshold

definition goQuo :: "int \<Rightarrow> int \<Rightarrow> int" where
  "goQuo a b = sgn a * sgn b * (\<bar>a\<bar> div \<bar>b\<bar>)"

definition goRem :: "int \<Rightarrow> int \<Rightarrow> int" where
  "goRem a b = a - b * goQuo a b"

definition toUint :: "int \<Rightarrow> nat" where
  "toUint x = nat (x mod 2 ^ 64)"

section \<open>Bit-vector primitives (hdc/vector.go)\<close>

record Vector =
  dims :: int
  data :: "64 word list"

definition numWords :: "int \<Rightarrow> int" where
  "numWords d = goQuo (d + 63) 64"

definition New :: "int \<Rightarrow> error + Vector" where
  "New d = (if d \<le> 0 then Inl DimsNotPositive
            else Inr \<lparr>dims = d, data = replicate (nat (numWords d)) 0\<rparr>)"

definition zeroPadding :: "64 word list \<Rightarrow> int \<Rightarrow> error + 64 word list" where
  "zeroPadding ws d =
     (let rem = goRem d 64 in
      if rem \<noteq> 0 then
        (if ws = [] then Inl IndexOutOfRange
         else Inr (ws[length ws - 1 := ws ! (length ws - 1) AND (push_bit (toUint rem) 1 - 1)]))
      else Inr ws)"

definition FromWords :: "int \<Rightarrow> 64 word list \<Rightarrow> error + Vector" where
  "FromWords d ws =
     (if d \<le> 0 then Inl DimsNotPositive
      else let needed = numWords d in
        if int (length ws) \<noteq> needed then Inl DataLengthMismatch
        else (case zeroPadding ws d of
                Inl e \<Rightarrow> Inl e
              | Inr copied \<Rightarrow> Inr \<lparr>dims = d, data = copied\<rparr>))"

definition Clone :: "Vector \<Rightarrow> Vector" where
  "Clone v = \<lparr>dims = dims v, data = data v\<rparr>"

text \<open>The loop \<open>for i := 0; i < w-1; i++\<close> of \<open>Permute\<close>, on the cloned buffer.\<close>

definition permuteStep :: "64 word list \<Rightarrow> nat \<Rightarrow> 64 word list" where
  "permuteStep r i = r[i := drop_bit 1 (r ! i) OR push_bit 63 (r ! (i + 1) AND 1)]"

definition Permute :: "Vector \<Rightarrow> error + Vector" where
  "Permute v =
     (let result = data (Clone v); w = length result in
      if w = 0 then Inl IndexOutOfRange
      else
        let bit0 = result ! 0 AND 1;
            r1 = foldl permuteStep result [0..<w - 1];
            highBit = toUint (goRem (dims v - 1) 64);
            r2 = r1[w - 1 := drop_bit 1 (r1 ! (w - 1)) OR push_bit highBit bit0]
        in Inr \<lparr>dims = dims v, data = r2\<rparr>)"

text \<open>\<open>requireSameDims\<close>: every vector after the first has the first one's dimension.\<close>

definition requireSameDims :: "Vector list \<Rightarrow> bool" where
  "requireSameDims vecs = (\<forall>v \<in> set (tl vecs). dims v = dims (hd vecs))"

text \<open>
  The counting loops of \<open>Bundle\<close>: for each vector, each word \<open>w\<close>, each bit \<open>b\<close> below
  \<open>limit\<close>, \<open>counts[base+b] += int32(word >> b & 1)\<close>. The counts are \<open>int32\<close>.
\<close>

definition countBit :: "int \<Rightarrow> 64 word \<Rightarrow> 32 word list \<Rightarrow> nat \<Rightarrow> 32 word list" where
  "countBit base word counts b =
     counts[nat base + b := counts ! (nat base + b) + ucast (drop_bit b word AND 1)]"

definition countWord :: "int \<Rightarrow> 32 word list \<Rightarrow> nat \<times> 64 word \<Rightarrow> 32 word list" where
  "countWord d counts p =
     (let base = int (fst p) * 64;
          limit = (if base + 64 > d then d - base else 64)
      in foldl (countBit base (snd p)) counts [0..<nat limit])"

definition countVec :: "int \<Rightarrow> 32 word list \<Rightarrow> Vector \<Rightarrow> 32 word list" where
  "countVec d counts v = foldl (countWord d) counts (enumerate 0 (data v))"

definition setMajority :: "int \<Rightarrow> 64 word list \<Rightarrow> nat \<times> 32 word \<Rightarrow> 64 word list" where
  "setMajority threshold res p =
     (if sint (snd p) > threshold
      then res[fst p div 64 := res ! (fst p div 64) OR push_bit (fst p mod 64) 1]
      else res)"

definition Bundle :: "Vector list \<Rightarrow> error + Vector" where
  "Bundle vecs =
     (if length vecs = 0 then Inl EmptyBundle
      else if \<not> requireSameDims vecs then Inl DimensionMismatch
      else
        let d = dims (hd vecs);
            threshold = goQuo (int (length vecs)) 2;
            counts = foldl (countVec d) (replicate (nat d) 0) vecs
        in (case New d of
              Inl e \<Rightarrow> Inl e
            | Inr result \<Rightarrow>
                Inr (result\<lparr>data := foldl (setMajority threshold) (data result)
                                        (enumerate 0 counts)\<rparr>)))"

definition Bind :: "Vector \<Rightarrow> Vector \<Rightarrow> error + Vector" where
  "Bind a b =
     (if dims b \<noteq> dims a then Inl DimensionMismatch
      else (case New (dims a) of
              Inl e \<Rightarrow> Inl e
            | Inr result \<Rightarrow>
                if length (data a) < length (data result) \<or> length (data b) < length (data result)
                then Inl IndexOutOfRange
                else Inr (result\<lparr>data := map (\<lambda>i. data a ! i XOR data b ! i)
                                             [0..<length (data result)]\<rparr>)))"

text \<open>\<open>bits.OnesCount64\<close>: the number of one bits of a word.\<close>

definition OnesCount64 :: "64 word \<Rightarrow> nat" where
  "OnesCount64 x = length (filter (bit x) [0..<64])"

text \<open>
  \<open>Similarity\<close> returns a \<open>float64\<close>; it is modelled by the real number the expression
  \<open>1.0 - float64(diff)/float64(a.dims)\<close> denotes, without rounding.
\<close>

definition hamming :: "64 word list \<Rightarrow> 64 word list \<Rightarrow> nat" where
  "hamming xs ys = foldl (\<lambda>diff i. diff + OnesCount64 (xs ! i XOR ys ! i)) 0 [0..<length xs]"

definition Similarity :: "Vector \<Rightarrow> Vector \<Rightarrow> error + real" where
  "Similarity a b =
     (if dims b \<noteq> dims a then Inl DimensionMismatch
      else if length (data b) < length (data a) then Inl IndexOutOfRange
      else Inr (1 - real (hamming (data a) (data b)) / real_of_int (dims a)))"

section \<open>Well-formed vectors\<close>

text \<open>
  Bit \<open>i\<close> of a vector, and the padding invariant: the buffer has \<open>numWords dims\<close> words
  and no bit at position \<open>dims\<close> or beyond is set.
\<close>

definition vbit :: "Vector \<Rightarrow> nat \<Rightarrow> bool" where
  "vbit v i = (i div 64 < length (data v) \<and> bit (data v ! (i div 64)) (i mod 64))"

definition paddingZero :: "Vector \<Rightarrow> bool" where
  "paddingZero v =
     (dims v mod 64 = 0 \<or> data v = [] \<or> drop_bit (nat (dims v mod 64)) (last (data v)) = 0)"

definition valid :: "Vector \<Rightarrow> bool" where
  "valid v = (0 < dims v \<and> int (length (data v)) = numWords (dims v) \<and> paddingZero v)"

text \<open>The number of vectors of a list that have bit \<open>i\<close> set.\<close>

definition onesAt :: "Vector list \<Rightarrow> nat \<Rightarrow> nat" where
  "onesAt vecs i = length (filter (\<lambda>v. vbit v i) vecs)"

text \<open>\<open>Permute\<close> applied \<open>n\<close> times, as the loop \<open>for j := 0; j < i; j++ { sym = sym.Permute() }\<close>.\<close>

fun PermuteN :: "nat \<Rightarrow> Vector \<Rightarrow> error + Vector" where
  "PermuteN 0 v = Inr v"
| "PermuteN (Suc n) v = (case Permute v of Inl e \<Rightarrow> Inl e | Inr r \<Rightarrow> PermuteN n r)"

section \<open>Seeded random vector (hdc/random.go)\<close>

text \<open>
  The Go standard library is not part of the repository; what the code uses of it is a
  parameter: \<open>ToLower\<close> is \<open>strings.ToLower\<close>, \<open>IsSpace\<close> and \<open>IsPunct\<close> are those of
  package \<open>unicode\<close>, and \<open>Uint64 seed i\<close> is the \<open>i\<close>-th value that
  \<open>rand.New(rand.NewSource(int64(seed))).Uint64()\<close> returns. A \<open>rune\<close> is an \<open>int32\<close>; a
  text is the list of runes that \<open>range\<close> decodes from the string.
\<close>

type_synonym rune = "32 word"

record golib =
  ToLower :: "rune list \<Rightarrow> rune list"
  IsSpace :: "rune \<Rightarrow> bool"
  IsPunct :: "rune \<Rightarrow> bool"
  Uint64 :: "64 word \<Rightarrow> nat \<Rightarrow> 64 word"

definition Random :: "golib \<Rightarrow> int \<Rightarrow> 64 word \<Rightarrow> error + Vector" where
  "Random lib d seed =
     (case New d of
        Inl e \<Rightarrow> Inl e
      | Inr v \<Rightarrow>
          (case zeroPadding (map (Uint64 lib seed) [0..<length (data v)]) d of
             Inl e \<Rightarrow> Inl e
           | Inr ws \<Rightarrow> Inr (v\<lparr>data := ws\<rparr>)))"

section \<open>Symbol table (hdc/encoder.go)\<close>

record symbolTable =
  tdims :: int
  tseed :: "64 word"
  table :: "rune \<rightharpoonup> Vector"

type_synonym 'a res = "error + ('a \<times> symbolTable)"

text \<open>
  The seed expression of \<open>symbolTable.get\<close> is \<open>t.seed^uint64(r)*2654435761+1\<close>. In Go
  \<open>*\<close> binds tighter than \<open>^\<close> and \<open>+\<close>, which have the same precedence and associate to
  the left: the expression is \<open>(t.seed ^ (uint64(r)*2654435761)) + 1\<close>. \<open>uint64(r)\<close> of an
  \<open>int32\<close> sign-extends.
\<close>

definition symbolSeed :: "64 word \<Rightarrow> rune \<Rightarrow> 64 word" where
  "symbolSeed s r = (s XOR (scast r * 2654435761)) + 1"

definition symbolTable_get :: "golib \<Rightarrow> symbolTable \<Rightarrow> rune \<Rightarrow> Vector res" where
  "symbolTable_get lib t r =
     (case table t r of
        Some v \<Rightarrow> Inr (v, t)
      | None \<Rightarrow>
          (case Random lib (tdims t) (symbolSeed (tseed t) r) of
             Inl e \<Rightarrow> Inl e
           | Inr v \<Rightarrow> Inr (v, t\<lparr>table := (table t)(r \<mapsto> v)\<rparr>)))"

text \<open>
  A table is consistent when every cached vector is the one \<open>Random\<close> gives for its
  code point; the table of a new encoder is empty.
\<close>

definition symConsistent :: "golib \<Rightarrow> symbolTable \<Rightarrow> bool" where
  "symConsistent lib t =
     (\<forall>c v. table t c = Some v \<longrightarrow> Random lib (tdims t) (symbolSeed (tseed t) c) = Inr v)"

text \<open>A library instance for concrete evaluation: its random stream repeats the seed.\<close>

definition constStream :: "64 word \<Rightarrow> nat \<Rightarrow> 64 word" where
  "constStream seed i = seed"

definition testlib :: golib where
  "testlib = \<lparr>ToLower = (\<lambda>s. s), IsSpace = (\<lambda>r. r = 32), IsPunct = (\<lambda>r. False),
              Uint64 = constStream\<rparr>"

section \<open>Text normalization\<close>

definition TrimSpace :: "golib \<Rightarrow> rune list \<Rightarrow> rune list" where
  "TrimSpace lib s = dropWhile (IsSpace lib) (rev (dropWhile (IsSpace lib) (rev s)))"

fun normalizeLoop :: "golib \<Rightarrow> bool \<Rightarrow> rune list \<Rightarrow> rune list \<Rightarrow> bool \<Rightarrow> rune list" where
  "normalizeLoop lib stripPunct [] b prevSpace = b"
| "normalizeLoop lib stripPunct (r # rs) b prevSpace =
     (if IsSpace lib r then
        (if \<not> prevSpace then normalizeLoop lib stripPunct rs (b @ [32]) True
         else normalizeLoop lib stripPunct rs b prevSpace)
      else if stripPunct \<and> IsPunct lib r then normalizeLoop lib stripPunct rs b prevSpace
      else normalizeLoop lib stripPunct rs (b @ [r]) False)"

definition normalizeSegment :: "golib \<Rightarrow> rune list \<Rightarrow> bool \<Rightarrow> rune list" where
  "normalizeSegment lib text stripPunct = TrimSpace lib (normalizeLoop lib stripPunct text [] False)"

text \<open>The delimiters are \<open>.\<close> (46), \<open>?\<close> (63), \<open>!\<close> (33) and the line feed (10).\<close>

fun splitLoop :: "golib \<Rightarrow> rune list \<Rightarrow> rune list \<Rightarrow> rune list list \<Rightarrow> rune list list" where
  "splitLoop lib [] cur out =
     (let s = TrimSpace lib cur in if s \<noteq> [] then out @ [s] else out)"
| "splitLoop lib (r # rs) cur out =
     (if r = 46 \<or> r = 63 \<or> r = 33 \<or> r = 10 then
        (let s = TrimSpace lib cur in
         splitLoop lib rs [] (if s \<noteq> [] then out @ [s] else out))
      else splitLoop lib rs (cur @ [r]) out)"

definition splitSentences :: "golib \<Rightarrow> rune list \<Rightarrow> rune list list" where
  "splitSentences lib text = splitLoop lib text [] []"

section \<open>N-gram encoder, pure-functional revision (hdc/encoder.go)\<close>

record Config =
  Dims :: int
  NGramSize :: int
  StripPunctuation :: bool
  LongTextThresh :: int
  ChunkSize :: int
  Seed :: "64 word"

record NGramEncoder =
  cfg :: Config
  sym :: symbolTable

datatype config_error = BadDims | BadNGramSize | BadChunkSize | BadLongTextThresh

definition NewNGramEncoder :: "Config \<Rightarrow> config_error + NGramEncoder" where
  "NewNGramEncoder c =
     (if Dims c \<le> 0 then Inl BadDims
      else if NGramSize c \<le> 0 then Inl BadNGramSize
      else if ChunkSize c < 2 then Inl BadChunkSize
      else if LongTextThresh c \<le> 0 then Inl BadLongTextThresh
      else Inr \<lparr>cfg = c, sym = \<lparr>tdims = Dims c, tseed = Seed c, table = Map.empty\<rparr>\<rparr>)"

text \<open>
  A loop that appends one result per element while it threads the symbol table:
  \<open>for i := range vecs { vecs[i] = f(...) }\<close>.
\<close>

fun forEach :: "(symbolTable \<Rightarrow> 'a \<Rightarrow> 'b res) \<Rightarrow> symbolTable \<Rightarrow> 'a list \<Rightarrow> 'b list res" where
  "forEach f t [] = Inr ([], t)"
| "forEach f t (x # xs) =
     (case f t x of
        Inl e \<Rightarrow> Inl e
      | Inr (y, t') \<Rightarrow>
          (case forEach f t' xs of
             Inl e \<Rightarrow> Inl e
           | Inr (ys, t'') \<Rightarrow> Inr (y # ys, t'')))"

text \<open>\<open>encodeWindow\<close>: the loop \<open>for i := 1; i < len(runes); i++\<close> on \<open>runes[1:]\<close>.\<close>

fun windowLoop :: "golib \<Rightarrow> symbolTable \<Rightarrow> Vector \<Rightarrow> nat \<Rightarrow> rune list \<Rightarrow> Vector res" where
  "windowLoop lib t result i [] = Inr (result, t)"
| "windowLoop lib t result i (r # rs) =
     (case symbolTable_get lib t r of
        Inl e \<Rightarrow> Inl e
      | Inr (s, t') \<Rightarrow>
          (case PermuteN i s of
             Inl e \<Rightarrow> Inl e
           | Inr p \<Rightarrow>
               (case Bind result p of
                  Inl e \<Rightarrow> Inl e
                | Inr result' \<Rightarrow> windowLoop lib t' result' (Suc i) rs)))"

definition encodeWindow :: "golib \<Rightarrow> symbolTable \<Rightarrow> rune list \<Rightarrow> Vector res" where
  "encodeWindow lib t runes =
     (case runes of
        [] \<Rightarrow> Inl IndexOutOfRange
      | r0 # rest \<Rightarrow>
          (case symbolTable_get lib t r0 of
             Inl e \<Rightarrow> Inl e
           | Inr (result, t') \<Rightarrow> windowLoop lib t' result 1 rest))"

text \<open>The slice \<open>runes[i : i+n]\<close>, which panics when its bounds are out of order or range.\<close>

definition slice :: "'a list \<Rightarrow> int \<Rightarrow> int \<Rightarrow> error + 'a list" where
  "slice xs lo hi =
     (if lo < 0 \<or> hi < lo \<or> int (length xs) < hi then Inl IndexOutOfRange
      else Inr (take (nat (hi - lo)) (drop (nat lo) xs)))"

definition encodeRunes :: "golib \<Rightarrow> Config \<Rightarrow> symbolTable \<Rightarrow> rune list \<Rightarrow> Vector res" where
  "encodeRunes lib c t runes =
     (let n = NGramSize c in
      if int (length runes) < n then
        (case forEach (symbolTable_get lib) t runes of
           Inl e \<Rightarrow> Inl e
         | Inr (vecs, t') \<Rightarrow>
             if length vecs = 0 then
               (case New (Dims c) of Inl e \<Rightarrow> Inl e | Inr z \<Rightarrow> Inr (z, t'))
             else (case Bundle vecs of Inl e \<Rightarrow> Inl e | Inr b \<Rightarrow> Inr (b, t')))
      else
        let count = int (length runes) - n + 1 in
        (case forEach (\<lambda>t i. case slice runes (int i) (int i + n) of
                                 Inl e \<Rightarrow> Inl e
                               | Inr w \<Rightarrow> encodeWindow lib t w)
                t [0..<nat count] of
           Inl e \<Rightarrow> Inl e
         | Inr (vecs, t') \<Rightarrow>
             (case Bundle vecs of Inl e \<Rightarrow> Inl e | Inr b \<Rightarrow> Inr (b, t'))))"

text \<open>
  The chunk loop of \<open>encodeChunked\<close>, \<open>for start := 0; start < len(runes); start += stride\<close>.
  It is the same text in both revisions and is given the revision's \<open>encodeRunes\<close>. With
  a stride of 0 the Go loop need not terminate; not returning is the value \<open>None\<close>.
\<close>

partial_function (option) chunkLoop ::
  "(symbolTable \<Rightarrow> rune list \<Rightarrow> Vector res) \<Rightarrow> Config \<Rightarrow> rune list \<Rightarrow> int \<Rightarrow> Vector list
     \<Rightarrow> symbolTable \<Rightarrow> Vector list res option" where
  "chunkLoop encRunes c runes start vecs t =
     (let size = ChunkSize c; stride = goQuo size 2; len = int (length runes) in
      if start < len then
        (let end0 = start + size; end1 = (if end0 > len then len else end0) in
         case slice runes start end1 of
           Inl e \<Rightarrow> Some (Inl e)
         | Inr chunk \<Rightarrow>
             (case (if int (length chunk) \<ge> NGramSize c \<or> length vecs = 0
                    then (case encRunes t chunk of
                            Inl e \<Rightarrow> Inl e
                          | Inr (v, t') \<Rightarrow> Inr (vecs @ [v], t'))
                    else Inr (vecs, t)) of
                Inl e \<Rightarrow> Some (Inl e)
              | Inr (vecs', t') \<Rightarrow>
                  if end1 = len then Some (Inr (vecs', t'))
                  else chunkLoop encRunes c runes (start + stride) vecs' t'))
      else Some (Inr (vecs, t)))"

declare chunkLoop.simps [code]

definition encodeChunked :: "golib \<Rightarrow> Config \<Rightarrow> symbolTable \<Rightarrow> rune list \<Rightarrow> Vector res option" where
  "encodeChunked lib c t runes =
     (case chunkLoop (encodeRunes lib c) c runes 0 [] t of
        None \<Rightarrow> None
      | Some (Inl e) \<Rightarrow> Some (Inl e)
      | Some (Inr (vecs, t')) \<Rightarrow>
          if length vecs = 0 then
            (case New (Dims c) of Inl e \<Rightarrow> Some (Inl e) | Inr z \<Rightarrow> Some (Inr (z, t')))
          else (case Bundle vecs of Inl e \<Rightarrow> Some (Inl e) | Inr b \<Rightarrow> Some (Inr (b, t'))))"

text \<open>
  The sentence loop of \<open>Encode\<close>, the same text in both revisions: \<open>encLong\<close> is the
  revision's \<open>encodeChunked\<close> and \<open>encShort\<close> its \<open>encodeRunes\<close>.
\<close>

fun sentenceLoop ::
  "(symbolTable \<Rightarrow> rune list \<Rightarrow> Vector res option) \<Rightarrow> (symbolTable \<Rightarrow> rune list \<Rightarrow> Vector res)
     \<Rightarrow> golib \<Rightarrow> Config \<Rightarrow> rune list list \<Rightarrow> Vector list \<Rightarrow> symbolTable
     \<Rightarrow> Vector list res option" where
  "sentenceLoop encLong encShort lib c [] vecs t = Some (Inr (vecs, t))"
| "sentenceLoop encLong encShort lib c (s # ss) vecs t =
     (let runes = normalizeSegment lib s (StripPunctuation c) in
      if runes = [] then sentenceLoop encLong encShort lib c ss vecs t
      else
        (case (if int (length runes) > LongTextThresh c then encLong t runes
               else Some (encShort t runes)) of
           None \<Rightarrow> None
         | Some (Inl e) \<Rightarrow> Some (Inl e)
         | Some (Inr (v, t')) \<Rightarrow> sentenceLoop encLong encShort lib c ss (vecs @ [v]) t'))"

definition Encode :: "golib \<Rightarrow> NGramEncoder \<Rightarrow> rune list \<Rightarrow> (error + Vector \<times> NGramEncoder) option" where
  "Encode lib e text =
     (if text = [] then
        (case New (Dims (cfg e)) of Inl err \<Rightarrow> Some (Inl err) | Inr z \<Rightarrow> Some (Inr (z, e)))
      else
        (case sentenceLoop (encodeChunked lib (cfg e)) (encodeRunes lib (cfg e)) lib (cfg e)
                (splitSentences lib (ToLower lib text)) [] (sym e) of
           None \<Rightarrow> None
         | Some (Inl err) \<Rightarrow> Some (Inl err)
         | Some (Inr (vecs, t')) \<Rightarrow>
             if length vecs = 0 then
               (case New (Dims (cfg e)) of
                  Inl err \<Rightarrow> Some (Inl err)
                | Inr z \<Rightarrow> Some (Inr (z, e\<lparr>sym := t'\<rparr>)))
             else
               (case Bundle vecs of
                  Inl err \<Rightarrow> Some (Inl err)
                | Inr b \<Rightarrow> Some (Inr (b, e\<lparr>sym := t'\<rparr>)))))"

section \<open>Scratch-buffer pool (hdc/pool.go)\<close>

text \<open>
  \<open>getWords\<close> and \<open>getCounts\<close> zero the buffer they hand out, a recycled one or a new
  one, and every buffer of a pool has the pool's length; so the value handed out is the
  zero buffer. \<open>sync.Pool\<close> never hands out a buffer that is checked out, and the encoder
  puts each buffer back once: live buffers do not alias, and the model passes their
  contents.
\<close>

definition getWords :: "int \<Rightarrow> 64 word list" where
  "getWords d = replicate (nat (numWords d)) 0"

definition getCounts :: "int \<Rightarrow> 32 word list" where
  "getCounts d = replicate (nat d) 0"

section \<open>In-place vector operations\<close>

text \<open>
  Modelled from the spec: \<open>vectorFromBuf\<close> is called by the pooled encoder and tested in
  hdc/pool_test.go but its source is missing. It wraps a pool buffer as a scratch vector
  of the given dimension, clears the padding bits, and fails on a buffer whose length
  disagrees with the dimension.
\<close>

definition vectorFromBuf :: "int \<Rightarrow> 64 word list \<Rightarrow> error + Vector" where
  "vectorFromBuf d buf =
     (if int (length buf) \<noteq> numWords d then Inl DataLengthMismatch
      else (case zeroPadding buf d of
              Inl e \<Rightarrow> Inl e
            | Inr ws \<Rightarrow> Inr \<lparr>dims = d, data = ws\<rparr>))"

text \<open>
  Modelled from the spec: \<open>permuteInto\<close> is missing from the sources. It is the in-place
  \<open>permute\<close>: it writes the cyclic shift of \<open>src\<close> into the buffer of \<open>dst\<close>, and fails on
  mismatched dimensions.
\<close>

definition permuteInto :: "Vector \<Rightarrow> Vector \<Rightarrow> error + Vector" where
  "permuteInto dst src =
     (if dims src \<noteq> dims dst then Inl DimensionMismatch
      else (case Permute src of
              Inl e \<Rightarrow> Inl e
            | Inr r \<Rightarrow>
                if length (data r) \<noteq> length (data dst) then Inl DataLengthMismatch
                else Inr (dst\<lparr>data := data r\<rparr>)))"

text \<open>
  Modelled from the spec: \<open>bindInto\<close> is missing from the sources. It is the in-place
  \<open>bind\<close>: it writes the word-wise XOR of \<open>a\<close> and \<open>b\<close> into the buffer of \<open>dst\<close>, which may
  be the buffer of \<open>a\<close>, and fails on mismatched dimensions.
\<close>

definition bindInto :: "Vector \<Rightarrow> Vector \<Rightarrow> Vector \<Rightarrow> error + Vector" where
  "bindInto dst a b =
     (if dims a \<noteq> dims dst \<or> dims b \<noteq> dims dst then Inl DimensionMismatch
      else if length (data a) < length (data dst) \<or> length (data b) < length (data dst)
      then Inl IndexOutOfRange
      else Inr (dst\<lparr>data := map (\<lambda>i. data a ! i XOR data b ! i) [0..<length (data dst)]\<rparr>))"

text \<open>
  Modelled from the spec: \<open>bundleInto\<close> is missing from the sources. It is the in-place
  \<open>bundle\<close>: the majority vote of the vectors, counted in the given \<open>int32\<close> count buffer
  and written into the buffer of \<open>dst\<close>; it fails on an empty list and on mismatched
  dimensions.
\<close>

definition bundleInto :: "Vector \<Rightarrow> 32 word list \<Rightarrow> Vector list \<Rightarrow> error + Vector" where
  "bundleInto dst counts vecs =
     (if length vecs = 0 then Inl EmptyBundle
      else if \<not> requireSameDims (dst # vecs) then Inl DimensionMismatch
      else
        let threshold = goQuo (int (length vecs)) 2;
            counts' = foldl (countVec (dims dst)) counts vecs
        in Inr (dst\<lparr>data := foldl (setMajority threshold) (data dst) (enumerate 0 counts')\<rparr>))"

section \<open>N-gram encoder, pooled revision (hdc/encoder.go)\<close>

text \<open>Go's \<open>copy(dst, src)\<close> on the contents of two buffers.\<close>

definition copy :: "'a list \<Rightarrow> 'a list \<Rightarrow> 'a list" where
  "copy dst src = take (length dst) src @ drop (length src) dst"

definition bundlePooled :: "Config \<Rightarrow> Vector list \<Rightarrow> error + Vector" where
  "bundlePooled c vecs =
     (let counts = getCounts (Dims c) in
      case vectorFromBuf (Dims c) (getWords (Dims c)) of
        Inl e \<Rightarrow> Inl e
      | Inr dst \<Rightarrow> bundleInto dst counts vecs)"

text \<open>
  The loop \<open>for j := 0; j < i; j++ { permuteInto(permDst, permSrc); swap }\<close>; it returns
  \<open>(permSrc, permDst)\<close>.
\<close>

fun pingPong :: "nat \<Rightarrow> Vector \<Rightarrow> Vector \<Rightarrow> error + Vector \<times> Vector" where
  "pingPong 0 permSrc permDst = Inr (permSrc, permDst)"
| "pingPong (Suc j) permSrc permDst =
     (case permuteInto permDst permSrc of
        Inl e \<Rightarrow> Inl e
      | Inr permDst' \<Rightarrow> pingPong j permDst' permSrc)"

fun windowIntoLoop ::
  "golib \<Rightarrow> symbolTable \<Rightarrow> Vector \<Rightarrow> Vector \<Rightarrow> Vector \<Rightarrow> nat \<Rightarrow> rune list \<Rightarrow> Vector res" where
  "windowIntoLoop lib t dst permSrc permDst i [] = Inr (dst, t)"
| "windowIntoLoop lib t dst permSrc permDst i (r # rs) =
     (case symbolTable_get lib t r of
        Inl e \<Rightarrow> Inl e
      | Inr (s, t') \<Rightarrow>
          (case pingPong i (permSrc\<lparr>data := copy (data permSrc) (data s)\<rparr>) permDst of
             Inl e \<Rightarrow> Inl e
           | Inr (permSrc', permDst') \<Rightarrow>
               (case bindInto dst dst permSrc' of
                  Inl e \<Rightarrow> Inl e
                | Inr dst' \<Rightarrow> windowIntoLoop lib t' dst' permSrc' permDst' (Suc i) rs)))"

definition encodeWindowInto :: "golib \<Rightarrow> Config \<Rightarrow> symbolTable \<Rightarrow> Vector \<Rightarrow> rune list \<Rightarrow> Vector res" where
  "encodeWindowInto lib c t dst runes =
     (case runes of
        [] \<Rightarrow> Inl IndexOutOfRange
      | r0 # rest \<Rightarrow>
          (case symbolTable_get lib t r0 of
             Inl e \<Rightarrow> Inl e
           | Inr (sym0, t') \<Rightarrow>
               let dst' = dst\<lparr>data := copy (data dst) (data sym0)\<rparr> in
               if length runes = 1 then Inr (dst', t')
               else
                 (case vectorFromBuf (Dims c) (getWords (Dims c)) of
                    Inl e \<Rightarrow> Inl e
                  | Inr permSrc \<Rightarrow>
                      (case vectorFromBuf (Dims c) (getWords (Dims c)) of
                         Inl e \<Rightarrow> Inl e
                       | Inr permDst \<Rightarrow> windowIntoLoop lib t' dst' permSrc permDst 1 rest))))"

definition encodeRunes_pooled :: "golib \<Rightarrow> Config \<Rightarrow> symbolTable \<Rightarrow> rune list \<Rightarrow> Vector res" where
  "encodeRunes_pooled lib c t runes =
     (let n = NGramSize c in
      if int (length runes) < n then
        (case forEach (symbolTable_get lib) t runes of
           Inl e \<Rightarrow> Inl e
         | Inr (vecs, t') \<Rightarrow>
             if length vecs = 0 then
               (case New (Dims c) of Inl e \<Rightarrow> Inl e | Inr z \<Rightarrow> Inr (z, t'))
             else (case bundlePooled c vecs of Inl e \<Rightarrow> Inl e | Inr b \<Rightarrow> Inr (b, t')))
      else
        let count = int (length runes) - n + 1 in
        (case forEach (\<lambda>t i. case vectorFromBuf (Dims c) (getWords (Dims c)) of
                                 Inl e \<Rightarrow> Inl e
                               | Inr dst \<Rightarrow>
                                   (case slice runes (int i) (int i + n) of
                                      Inl e \<Rightarrow> Inl e
                                    | Inr w \<Rightarrow> encodeWindowInto lib c t dst w))
                t [0..<nat count] of
           Inl e \<Rightarrow> Inl e
         | Inr (vecs, t') \<Rightarrow>
             (case bundlePooled c vecs of Inl e \<Rightarrow> Inl e | Inr b \<Rightarrow> Inr (b, t'))))"

definition encodeChunked_pooled ::
  "golib \<Rightarrow> Config \<Rightarrow> symbolTable \<Rightarrow> rune list \<Rightarrow> Vector res option" where
  "encodeChunked_pooled lib c t runes =
     (case chunkLoop (encodeRunes_pooled lib c) c runes 0 [] t of
        None \<Rightarrow> None
      | Some (Inl e) \<Rightarrow> Some (Inl e)
      | Some (Inr (vecs, t')) \<Rightarrow>
          if length vecs = 0 then
            (case New (Dims c) of Inl e \<Rightarrow> Some (Inl e) | Inr z \<Rightarrow> Some (Inr (z, t')))
          else if length vecs = 1 then Some (Inr (vecs ! 0, t'))
          else (case bundlePooled c vecs of
                  Inl e \<Rightarrow> Some (Inl e)
                | Inr b \<Rightarrow> Some (Inr (b, t'))))"

definition Encode_pooled ::
  "golib \<Rightarrow> NGramEncoder \<Rightarrow> rune list \<Rightarrow> (error + Vector \<times> NGramEncoder) option" where
  "Encode_pooled lib e text =
     (if text = [] then
        (case New (Dims (cfg e)) of Inl err \<Rightarrow> Some (Inl err) | Inr z \<Rightarrow> Some (Inr (z, e)))
      else
        (case sentenceLoop (encodeChunked_pooled lib (cfg e)) (encodeRunes_pooled lib (cfg e))
                lib (cfg e) (splitSentences lib (ToLower lib text)) [] (sym e) of
           None \<Rightarrow> None
         | Some (Inl err) \<Rightarrow> Some (Inl err)
         | Some (Inr (vecs, t')) \<Rightarrow>
             if length vecs = 0 then
               (case New (Dims (cfg e)) of
                  Inl err \<Rightarrow> Some (Inl err)
                | Inr z \<Rightarrow> Some (Inr (z, e\<lparr>sym := t'\<rparr>)))
             else if length vecs = 1 then Some (Inr (vecs ! 0, e\<lparr>sym := t'\<rparr>))
             else
               (case bundlePooled (cfg e) vecs of
                  Inl err \<Rightarrow> Some (Inl err)
                | Inr b \<Rightarrow> Some (Inr (b, e\<lparr>sym := t'\<rparr>)))))"

section \<open>Semantic cache (cache/cache.go)\<close>

text \<open>
  The LRU list is a \<open>container/list\<close>: its elements are modelled by handles (the element
  pointers) paired with the entry each one holds, front first; the index maps a key to
  the handle of its element. \<open>time.Now()\<close> is an argument of \<open>Set\<close>. The encoder is any
  \<open>hdc.Encoder\<close>; the cache sees it as a function from the key to a vector. The counters
  are \<open>uint64\<close>; \<open>threshold\<close>, \<open>simSum\<close> and the similarities are \<open>float64\<close>, modelled by the
  reals they denote.
\<close>

record 'v entry =
  key :: string
  vec :: Vector
  val :: 'v
  ts :: nat


record 'v Cache =
  enc :: "string \<Rightarrow> Vector"
  lru :: "(nat \<times> 'v entry) list"
  index :: "string \<rightharpoonup> nat"
  nextElem :: nat
  threshold :: real
  capacity :: int
  hits :: "64 word"
  misses :: "64 word"
  sets :: "64 word"
  simSum :: real


text \<open>
  \<open>MoveToFront\<close> and \<open>Remove\<close> of \<open>container/list\<close> do nothing for an element that is not
  in the list.
\<close>

definition list_Remove :: "nat \<Rightarrow> (nat \<times> 'e) list \<Rightarrow> (nat \<times> 'e) list" where
  "list_Remove h l = filter (\<lambda>p. fst p \<noteq> h) l"

definition MoveToFront :: "nat \<Rightarrow> (nat \<times> 'e) list \<Rightarrow> (nat \<times> 'e) list" where
  "MoveToFront h l = (case map_of l h of None \<Rightarrow> l | Some e \<Rightarrow> (h, e) # list_Remove h l)"

definition removeLocked :: "nat \<times> 'v entry \<Rightarrow> 'v Cache \<Rightarrow> 'v Cache" where
  "removeLocked elem c =
     c\<lparr>index := (index c)(key (snd elem) := None), lru := list_Remove (fst elem) (lru c)\<rparr>"

definition evictLocked :: "'v Cache \<Rightarrow> 'v Cache" where
  "evictLocked c = (if lru c = [] then c else removeLocked (last (lru c)) c)"

definition Set :: "nat \<Rightarrow> string \<Rightarrow> 'v \<Rightarrow> 'v Cache \<Rightarrow> 'v Cache" where
  "Set now k v c =
     (let vc = enc c k;
          c1 = c\<lparr>sets := sets c + 1\<rparr>
      in case index c1 k of
           Some h \<Rightarrow>
             c1\<lparr>lru := MoveToFront h
                          (map (\<lambda>p. if fst p = h
                                     then (h, (snd p)\<lparr>vec := vc, val := v, ts := now\<rparr>)
                                     else p)
                               (lru c1))\<rparr>
         | None \<Rightarrow>
             let c2 = (if int (length (lru c1)) \<ge> capacity c1 then evictLocked c1 else c1);
                 h = nextElem c2
             in c2\<lparr>lru := (h, \<lparr>key = k, vec = vc, val = v, ts = now\<rparr>) # lru c2,
                    index := (index c2)(k \<mapsto> h),
                    nextElem := Suc h\<rparr>)"

fun scanLoop ::
  "real \<Rightarrow> Vector \<Rightarrow> (nat \<times> 'v entry) list \<Rightarrow> (nat \<times> 'v entry) option \<times> real
     \<Rightarrow> error + (nat \<times> 'v entry) option \<times> real" where
  "scanLoop th q [] best = Inr best"
| "scanLoop th q (elem # rest) best =
     (case Similarity q (vec (snd elem)) of
        Inl e \<Rightarrow> Inl e
      | Inr s \<Rightarrow>
          if s \<ge> th \<and> s > snd best then scanLoop th q rest (Some elem, s)
          else scanLoop th q rest best)"

definition scanLocked :: "'v Cache \<Rightarrow> Vector \<Rightarrow> error + (nat \<times> 'v entry) option \<times> real" where
  "scanLocked c q = scanLoop (threshold c) q (lru c) (None, 0)"

definition Get :: "string \<Rightarrow> 'v Cache \<Rightarrow> error + ('v option \<times> bool \<times> real) \<times> 'v Cache" where
  "Get k c =
     (let q = enc c k in
      case scanLocked c q of
        Inl e \<Rightarrow> Inl e
      | Inr (None, bestSim) \<Rightarrow> Inr ((None, False, 0), c\<lparr>misses := misses c + 1\<rparr>)
      | Inr (Some bestElem, bestSim) \<Rightarrow>
          Inr ((Some (val (snd bestElem)), True, bestSim),
               c\<lparr>lru := MoveToFront (fst bestElem) (lru c),
                  hits := hits c + 1,
                  simSum := simSum c + bestSim\<rparr>))"

text \<open>
  \<open>Delete\<close>: an element found through the index holds the key it is indexed under; if it
  were no longer in the list, \<open>Remove\<close> would do nothing.
\<close>

definition Delete :: "string \<Rightarrow> 'v Cache \<Rightarrow> bool \<times> 'v Cache" where
  "Delete k c =
     (case index c k of
        None \<Rightarrow> (False, c)
      | Some h \<Rightarrow>
          (case map_of (lru c) h of
             Some e \<Rightarrow> (True, removeLocked (h, e) c)
           | None \<Rightarrow> (True, c\<lparr>index := (index c)(k := None)\<rparr>)))"

definition Len :: "'v Cache \<Rightarrow> int" where
  "Len c = int (length (lru c))"

text \<open>
  A finite sequence of completed operations; the run collects the similarity that each
  hit reports.
\<close>

datatype 'v op = OpSet nat string 'v | OpGet string | OpDelete string

fun step :: "'v op \<Rightarrow> 'v Cache \<Rightarrow> error + 'v Cache \<times> real list" where
  "step (OpSet now k v) c = Inr (Set now k v c, [])"
| "step (OpGet k) c =
     (case Get k c of
        Inl e \<Rightarrow> Inl e
      | Inr ((v, hit, s), c') \<Rightarrow> Inr (c', if hit then [s] else []))"
| "step (OpDelete k) c = Inr (snd (Delete k c), [])"




section \<open>Encoder invariants\<close>

text \<open>
  \<open>cfgOK\<close> is what \<open>NewNGramEncoder\<close> checks. \<open>tabOK\<close> says that the table has the
  encoder's dimension and caches well-formed vectors of that dimension, as it does when
  it starts empty and is filled by \<open>symbolTable.get\<close>.
\<close>

definition cfgOK :: "Config \<Rightarrow> bool" where
  "cfgOK c = (0 < Dims c \<and> 0 < NGramSize c \<and> 2 \<le> ChunkSize c \<and> 0 < LongTextThresh c)"

definition tabOK :: "Config \<Rightarrow> symbolTable \<Rightarrow> bool" where
  "tabOK c t =
     (tdims t = Dims c \<and> (\<forall>r v. table t r = Some v \<longrightarrow> valid v \<and> dims v = Dims c))"

definition encOK :: "NGramEncoder \<Rightarrow> bool" where
  "encOK e = (cfgOK (cfg e) \<and> tabOK (cfg e) (sym e))"

text \<open>A scratch vector has the shape of dimension \<open>d\<close>, whatever its buffer holds.\<close>

definition shape :: "int \<Rightarrow> Vector \<Rightarrow> bool" where
  "shape d x = (dims x = d \<and> length (data x) = nat (numWords d))"

definition okVec :: "Config \<Rightarrow> Vector \<Rightarrow> bool" where
  "okVec c v = (valid v \<and> dims v = Dims c)"

text \<open>A small configuration and its new encoder, for concrete evaluation.\<close>

definition cfg0 :: Config where
  "cfg0 = \<lparr>Dims = 65, NGramSize = 2, StripPunctuation = False, LongTextThresh = 3,
           ChunkSize = 2, Seed = 7\<rparr>"

definition enc0 :: NGramEncoder where
  "enc0 = \<lparr>cfg = cfg0, sym = \<lparr>tdims = 65, tseed = 7, table = Map.empty\<rparr>\<rparr>"

section \<open>Cache invariants\<close>



text \<open>
  The index and the list hold the same elements: a key is indexed at a handle exactly
  when the list has an element with that handle whose entry has that key. Handles in
  the list are distinct and were allocated before \<open>nextElem\<close>.
\<close>

definition cacheInv :: "'v Cache \<Rightarrow> bool" where
  "cacheInv c =
     (distinct (map fst (lru c)) \<and>
      (\<forall>k h. (index c k = Some h) = (\<exists>e. (h, e) \<in> set (lru c) \<and> key e = k)) \<and>
      (\<forall>p \<in> set (lru c). fst p < nextElem c))"



text \<open>
  An encoder for concrete evaluation, of dimension 4: the empty key encodes to the zero
  vector, every other key to the vector with bit 0 set.
\<close>

definition enc4 :: "string \<Rightarrow> Vector" where
  "enc4 k = (if k = [] then \<lparr>dims = 4, data = [0]\<rparr> else \<lparr>dims = 4, data = [1]\<rparr>)"

text \<open>
  A cache of capacity 2 and threshold 1/2 over \<open>enc4\<close>, after \<open>Set "a" 10\<close> and then
  \<open>Set "b" 20\<close>.
\<close>

definition cacheAB :: "nat Cache" where
  "cacheAB =
     \<lparr>enc = enc4,
      lru = [(1, \<lparr>key = ''b'', vec = \<lparr>dims = 4, data = [1]\<rparr>, val = 20, ts = 1\<rparr>),
             (0, \<lparr>key = ''a'', vec = \<lparr>dims = 4, data = [1]\<rparr>, val = 10, ts = 0\<rparr>)],
      index = [''a'' \<mapsto> 0, ''b'' \<mapsto> 1],
      nextElem = 2, threshold = 1 / 2, capacity = 2,
      hits = 0, misses = 0, sets = 2, simSum = 0\<rparr>"



section \<open>Arithmetic of the Go operators\<close>

lemma goQuo_nonneg: "0 \<le> a \<Longrightarrow> 0 < b \<Longrightarrow> goQuo a b = a div b"
  by (cases "a = 0") (simp_all add: goQuo_def)

lemma goRem_nonneg: "0 \<le> a \<Longrightarrow> 0 < b \<Longrightarrow> goRem a b = a mod b"
  by (simp add: goRem_def goQuo_nonneg minus_mult_div_eq_mod)

lemma numWords_pos: "0 < d \<Longrightarrow> numWords d = (d + 63) div 64"
  by (simp add: numWords_def goQuo_nonneg)

lemma toUint_small: "0 \<le> x \<Longrightarrow> x < 64 \<Longrightarrow> toUint x = nat x"
  by (simp add: toUint_def)

lemma wbit_eq: "(ucast (drop_bit b (w :: 64 word) AND 1) :: 32 word) = (if bit w b then 1 else 0)"
  by (simp add: and_one_eq mod_2_eq_odd bit_iff_odd_drop_bit)

lemma length_countBit [simp]: "length (countBit base word counts b) = length counts"
  by (simp add: countBit_def)

lemma length_foldl_countBit [simp]:
  "length (foldl (countBit base word) counts bs) = length counts"
  by (induction bs arbitrary: counts) simp_all

lemma countBit_nth:
  "i < length counts \<Longrightarrow> nat base + b < length counts \<Longrightarrow>
   countBit base word counts b ! i =
     counts ! i + (if i = nat base + b \<and> bit word b then 1 else 0)"
  by (simp add: countBit_def wbit_eq nth_list_update)

lemma foldl_countBit_nth:
  "0 \<le> base \<Longrightarrow> nat base + n \<le> length counts \<Longrightarrow> i < length counts \<Longrightarrow>
   foldl (countBit base word) counts [0..<n] ! i =
     counts ! i + (if nat base \<le> i \<and> i < nat base + n \<and> bit word (i - nat base) then 1 else 0)"
proof (induction n)
  case 0
  then show ?case by simp
next
  case (Suc n)
  then show ?case
    by (auto simp: countBit_nth less_Suc_eq)
qed


lemma length_countWord [simp]: "length (countWord d counts p) = length counts"
  by (simp add: countWord_def Let_def)

lemma countWord_nth:
  assumes "length counts = nat d" and "i < nat d"
  shows "countWord d counts (w, word) ! i =
           counts ! i + (if i div 64 = w \<and> bit word (i mod 64) then 1 else 0)"
proof (cases "int w * 64 + 64 > d")
  case True
  show ?thesis
  proof (cases "d - int w * 64 \<le> 0")
    case True
    then have "i div 64 \<noteq> w" using assms by auto
    with True \<open>int w * 64 + 64 > d\<close> show ?thesis
      by (simp add: countWord_def Let_def)
  next
    case False
    have eq: "nat (int w * 64) = w * 64" by simp
    have b: "nat (int w * 64) + nat (d - int w * 64) \<le> length counts"
      using False assms by simp
    have iff: "(w * 64 \<le> i \<and> i < w * 64 + nat (d - int w * 64)) = (i div 64 = w)"
      using False True assms by auto
    have sub: "i div 64 = w \<Longrightarrow> i - w * 64 = i mod 64"
      by (auto simp: minus_mult_div_eq_mod [symmetric] mult.commute)
    show ?thesis
      using True foldl_countBit_nth [OF _ b, of i word] assms iff sub
      by (auto simp: countWord_def Let_def eq)
  qed
next
  case False
  have eq: "nat (int w * 64) = w * 64" by simp
  have b: "nat (int w * 64) + 64 \<le> length counts"
    using False assms by simp
  have iff: "(w * 64 \<le> i \<and> i < w * 64 + 64) = (i div 64 = w)"
    by auto
  have sub: "i div 64 = w \<Longrightarrow> i - w * 64 = i mod 64"
    by (auto simp: minus_mult_div_eq_mod [symmetric] mult.commute)
  show ?thesis
    using False foldl_countBit_nth [OF _ b, of i word] assms iff sub
    by (auto simp: countWord_def Let_def eq)
qed

lemma length_foldl_countWord [simp]:
  "length (foldl (countWord d) counts ps) = length counts"
  by (induction ps arbitrary: counts) simp_all

lemma foldl_countWord_nth:
  "length counts = nat d \<Longrightarrow> i < nat d \<Longrightarrow>
   foldl (countWord d) counts (enumerate n ws) ! i =
     counts ! i +
       (if n \<le> i div 64 \<and> i div 64 < n + length ws \<and> bit (ws ! (i div 64 - n)) (i mod 64)
        then 1 else 0)"
proof (induction ws arbitrary: n counts)
  case Nil
  then show ?case by simp
next
  case (Cons x ws)
  have "i div 64 = n \<or> i div 64 < n \<or> Suc n \<le> i div 64" by arith
  then show ?case
    using Cons.prems
    by (auto simp: Cons.IH countWord_nth Suc_diff_le nth_Cons')
qed

lemma length_countVec [simp]: "length (countVec d counts v) = length counts"
  by (simp add: countVec_def)

lemma countVec_nth:
  "length counts = nat d \<Longrightarrow> i < nat d \<Longrightarrow>
   countVec d counts v ! i = counts ! i + (if vbit v i then 1 else 0)"
  by (simp add: countVec_def foldl_countWord_nth vbit_def)

lemma length_foldl_countVec [simp]:
  "length (foldl (countVec d) counts vs) = length counts"
  by (induction vs arbitrary: counts) simp_all

lemma foldl_countVec_nth:
  "length counts = nat d \<Longrightarrow> i < nat d \<Longrightarrow>
   foldl (countVec d) counts vs ! i = counts ! i + of_nat (length (filter (\<lambda>v. vbit v i) vs))"
  by (induction vs arbitrary: counts) (simp_all add: countVec_nth)


lemma length_setMajority [simp]: "length (setMajority th res p) = length res"
  by (simp add: setMajority_def)

lemma setMajority_bit:
  "j < length res \<Longrightarrow>
   bit (setMajority th res (i, c) ! j) b =
     (bit (res ! j) b \<or> (th < sint c \<and> i div 64 = j \<and> i mod 64 = b))"
  by (cases "i div 64 = j")
     (auto simp: setMajority_def nth_list_update bit_or_iff bit_exp_iff possible_bit_word
           simp del: push_bit_eq_mult dest: bit_imp_le_length)

lemma length_foldl_setMajority [simp]:
  "length (foldl (setMajority th) res ps) = length res"
  by (induction ps arbitrary: res) simp_all

lemma foldl_setMajority_bit:
  "j < length res \<Longrightarrow> b < 64 \<Longrightarrow>
   bit (foldl (setMajority th) res (enumerate n cs) ! j) b =
     (bit (res ! j) b \<or>
      (n \<le> j * 64 + b \<and> j * 64 + b < n + length cs \<and> th < sint (cs ! (j * 64 + b - n))))"
proof (induction cs arbitrary: n res)
  case Nil
  then show ?case by auto
next
  case (Cons c cs)
  have split: "j * 64 + b = n \<or> j * 64 + b < n \<or> Suc n \<le> j * 64 + b" by arith
  have dm: "(n div 64 = j \<and> n mod 64 = b) = (j * 64 + b = n)"
    using Cons.prems(2) by auto
  show ?case
    using Cons.prems split
    by (auto simp: Cons.IH setMajority_bit dm Suc_diff_le nth_Cons')
qed

lemma sint_count: "sint (of_nat n :: 32 word) = int n" if "n < 2 ^ 31"
proof -
  have "(of_nat n :: 32 word) = word_of_int (int n)" by simp
  then have "sint (of_nat n :: 32 word) = signed_take_bit 31 (int n)"
    by (simp only: sint_sbintrunc') simp
  also have "\<dots> = int n"
    using that by (simp add: signed_take_bit_int_eq_self)
  finally show ?thesis .
qed


lemma onesAt_le: "onesAt vecs i \<le> length vecs"
  by (simp add: onesAt_def)

lemma word_index_bound: "0 < d \<Longrightarrow> i < nat d \<Longrightarrow> i div 64 < nat (numWords d)"
  by (simp add: numWords_pos)

lemma Bundle_result:
  assumes ne: "vecs \<noteq> []" and same: "requireSameDims vecs" and pos: "0 < dims (hd vecs)"
  shows "Bundle vecs = Inr \<lparr>dims = dims (hd vecs),
            data = foldl (setMajority (int (length vecs div 2)))
                     (replicate (nat (numWords (dims (hd vecs)))) 0)
                     (enumerate 0 (foldl (countVec (dims (hd vecs)))
                                     (replicate (nat (dims (hd vecs))) 0) vecs))\<rparr>"
proof -
  have "goQuo (int (length vecs)) 2 = int (length vecs div 2)"
    by (simp add: goQuo_nonneg zdiv_int)
  then show ?thesis
    using assms by (simp add: Bundle_def New_def Let_def)
qed

lemma Bundle_bits:
  assumes ne: "vecs \<noteq> []" and same: "requireSameDims vecs" and pos: "0 < dims (hd vecs)"
    and small: "length vecs < 2 ^ 31"
    and res: "Bundle vecs = Inr r"
  shows "dims r = dims (hd vecs)"
    and "length (data r) = nat (numWords (dims (hd vecs)))"
    and "vbit r i = (int i < dims (hd vecs) \<and> length vecs div 2 < onesAt vecs i)"
proof -
  let ?d = "dims (hd vecs)"
  let ?counts = "foldl (countVec ?d) (replicate (nat ?d) 0) vecs"
  let ?res0 = "replicate (nat (numWords ?d)) (0 :: 64 word)"
  have r: "r = \<lparr>dims = ?d, data = foldl (setMajority (int (length vecs div 2))) ?res0
                                     (enumerate 0 ?counts)\<rparr>"
    using Bundle_result [OF ne same pos] res by simp
  show "dims r = ?d" by (simp add: r)
  show len: "length (data r) = nat (numWords ?d)" by (simp add: r)
  have cnt: "?counts ! j = of_nat (onesAt vecs j)" if "j < nat ?d" for j
    using that by (simp add: foldl_countVec_nth onesAt_def)
  have sc: "sint (of_nat (onesAt vecs j) :: 32 word) = int (onesAt vecs j)" for j
    using onesAt_le [of vecs j] small by (intro sint_count) simp
  show "vbit r i = (int i < ?d \<and> length vecs div 2 < onesAt vecs i)"
  proof (cases "i div 64 < nat (numWords ?d)")
    case True
    have "bit (data r ! (i div 64)) (i mod 64) =
            (i < nat ?d \<and> int (length vecs div 2) < sint (?counts ! i))"
      using True by (simp add: r foldl_setMajority_bit)
    then show ?thesis
      using True pos by (auto simp: vbit_def len cnt sc)
  next
    case False
    then have "\<not> i < nat ?d" using word_index_bound [OF pos] by blast
    then show ?thesis using False by (auto simp: vbit_def len)
  qed
qed

lemma valid_length: "valid v \<Longrightarrow> length (data v) = nat ((dims v + 63) div 64)"
  by (auto simp: valid_def numWords_pos)

lemma valid_data_ne: "valid v \<Longrightarrow> data v \<noteq> []"
  by (auto simp: valid_def numWords_pos)

lemma dims_nat:
  assumes "0 < dims v"
  obtains D where "dims v = int D" and "0 < D"
proof -
  have "dims v = int (nat (dims v))" and "0 < nat (dims v)"
    using assms by simp_all
  then show thesis by (rule that)
qed

lemma nw_cases: "((D::nat) + 63) div 64 = (if D mod 64 = 0 then D div 64 else D div 64 + 1)"
proof -
  define a b where "a = D div 64" and "b = D mod 64"
  have D: "D = 64 * a + b" and b: "b < 64" by (simp_all add: a_def b_def)
  have "(64 * a + b + 63) div 64 = (if b = 0 then a else a + 1)"
    using b by (auto intro!: div_nat_eqI)
  then show ?thesis by (simp add: D [symmetric]) (simp add: a_def b_def)
qed

lemma numWords_int: "0 < D \<Longrightarrow> nat (numWords (int D)) = (D + 63) div 64"
  by (simp add: numWords_pos nat_div_distrib nat_add_distrib)

text \<open>Position \<open>i\<close> lies below \<open>D\<close> when it is in an earlier word than the last, or in the
  last word below the remainder.\<close>

lemma pos_below:
  fixes D i :: nat
  assumes "i div 64 < (D + 63) div 64"
    and "i div 64 = (D + 63) div 64 - 1 \<Longrightarrow> D mod 64 \<noteq> 0 \<Longrightarrow> i mod 64 < D mod 64"
  shows "i < D"
proof -
  define q r a b where "q = i div 64" and "r = i mod 64" and "a = D div 64" and "b = D mod 64"
  have i: "i = 64 * q + r" and r: "r < 64" by (simp_all add: q_def r_def)
  have D: "D = 64 * a + b" and b: "b < 64" by (simp_all add: a_def b_def)
  have w: "(D + 63) div 64 = (if b = 0 then a else a + 1)"
    unfolding a_def b_def by (rule nw_cases)
  have 1: "q < (D + 63) div 64" using assms(1) by (simp only: q_def)
  have 2: "q = (D + 63) div 64 - 1 \<Longrightarrow> b \<noteq> 0 \<Longrightarrow> r < b"
    unfolding q_def r_def b_def by (rule assms(2))
  show ?thesis
  proof (cases "b = 0")
    case True
    then have "q < a" using 1 w by simp
    then show ?thesis using i D r by simp
  next
    case False
    then have wa: "(D + 63) div 64 = a + 1" using w by simp
    show ?thesis
    proof (cases "q = a")
      case True
      then have "r < b" using 2 False wa by simp
      then show ?thesis using i D True by simp
    next
      case False
      then have "q < a" using 1 wa by simp
      then show ?thesis using i D r by simp
    qed
  qed
qed

lemma pos_last_word:
  fixes D n :: nat
  assumes "D mod 64 \<noteq> 0" and "D mod 64 + n < 64"
  shows "D \<le> ((D + 63) div 64 - 1) * 64 + (D mod 64 + n)"
proof -
  define a b where "a = D div 64" and "b = D mod 64"
  have "D = 64 * a + b" "b \<noteq> 0" "(D + 63) div 64 = a + 1"
    using assms by (simp_all add: a_def b_def nw_cases)
  then show ?thesis by (simp add: b_def)
qed

lemma valid_vbit_bound:
  assumes v: "valid v" and b: "vbit v i"
  shows "int i < dims v"
proof -
  obtain D where D: "dims v = int D" "0 < D"
    using v dims_nat [of v] by (auto simp: valid_def)
  let ?w = "length (data v)"
  have len: "?w = (D + 63) div 64" and pz: "paddingZero v"
    using v D numWords_int [of D] by (auto simp: valid_def)
  have iw: "i div 64 < ?w" and bt: "bit (data v ! (i div 64)) (i mod 64)"
    using b by (auto simp: vbit_def)
  have "i < D"
  proof (rule pos_below)
    show "i div 64 < (D + 63) div 64" using iw len by simp
    assume last: "i div 64 = (D + 63) div 64 - 1" and nz: "D mod 64 \<noteq> 0"
    have ne: "data v \<noteq> []" using iw by auto
    have lastw: "data v ! (i div 64) = last (data v)"
      using last ne len by (simp add: last_conv_nth)
    have im: "int D mod 64 = int (D mod 64)" by (simp add: zmod_int)
    have z: "drop_bit (D mod 64) (last (data v)) = 0"
      using pz ne D nz by (simp add: paddingZero_def im)
    show "i mod 64 < D mod 64"
    proof (rule ccontr)
      assume "\<not> i mod 64 < D mod 64"
      then have le: "D mod 64 \<le> i mod 64" by simp
      have "bit (drop_bit (D mod 64) (last (data v))) (i mod 64 - D mod 64)"
        using bt le by (simp add: bit_drop_bit_eq lastw)
      then show False by (simp add: z)
    qed
  qed
  then show ?thesis by (simp add: D)
qed

lemma paddingZeroI:
  assumes pos: "0 < dims r" and len: "length (data r) = nat (numWords (dims r))"
    and bnd: "\<And>i. vbit r i \<Longrightarrow> int i < dims r"
  shows "paddingZero r"
proof -
  obtain D where D: "dims r = int D" "0 < D"
    using pos dims_nat [of r] by auto
  let ?w = "length (data r)"
  have w: "?w = (D + 63) div 64" using len D numWords_int [of D] by simp
  have wpos: "0 < (D + 63) div 64" using D by (simp add: div_greater_zero_iff)
  have im: "int D mod 64 = int (D mod 64)" by (simp add: zmod_int)
  have ne: "data r \<noteq> []" using w wpos by auto
  have "drop_bit (D mod 64) (last (data r)) = 0" if nz: "D mod 64 \<noteq> 0"
  proof (rule bit_eqI)
    fix n
    assume "possible_bit TYPE(64 word) n"
    show "bit (drop_bit (D mod 64) (last (data r))) n = bit (0 :: 64 word) n"
    proof (cases "bit (last (data r)) (D mod 64 + n)")
      case False
      then show ?thesis by (simp add: bit_drop_bit_eq)
    next
      case True
      then have lt64: "D mod 64 + n < 64"
        by (auto dest: bit_imp_le_length)
      let ?i = "(?w - 1) * 64 + (D mod 64 + n)"
      have "?i div 64 = ?w - 1" and "?i mod 64 = D mod 64 + n"
        using lt64 by simp_all
      then have "vbit r ?i"
        using True ne by (simp add: vbit_def last_conv_nth)
      then have "int ?i < dims r" by (rule bnd)
      then have "?i < D" by (simp add: D)
      then have False using pos_last_word [OF nz lt64] w by simp
      then show ?thesis ..
    qed
  qed
  then show ?thesis using D by (auto simp: paddingZero_def im)
qed

lemma validI:
  "0 < dims r \<Longrightarrow> length (data r) = nat (numWords (dims r)) \<Longrightarrow>
   (\<And>i. vbit r i \<Longrightarrow> int i < dims r) \<Longrightarrow> valid r"
  using paddingZeroI [of r] by (simp add: valid_def numWords_pos)

lemma vector_eqI:
  assumes "dims a = dims b" and "length (data a) = length (data b)"
    and "\<And>i. vbit a i = vbit b i"
  shows "a = (b :: Vector)"
proof -
  have "data a = data b"
  proof (rule nth_equalityI)
    show "length (data a) = length (data b)" by fact
    fix j assume j: "j < length (data a)"
    show "data a ! j = data b ! j"
    proof (rule bit_eqI)
      fix n assume "possible_bit TYPE(64 word) n"
      then have n: "n < 64" by (simp add: possible_bit_word)
      have "vbit a (j * 64 + n) = vbit b (j * 64 + n)" by (rule assms(3))
      then show "bit (data a ! j) n = bit (data b ! j) n"
        using j n assms(2) by (simp add: vbit_def)
    qed
  qed
  then show ?thesis using assms(1) by simp
qed

lemma requireSameDims_all:
  "vecs \<noteq> [] \<Longrightarrow> requireSameDims vecs = (\<forall>v \<in> set vecs. dims v = dims (hd vecs))"
  by (cases vecs) (auto simp: requireSameDims_def)

lemma Bundle_valid:
  assumes ne: "vecs \<noteq> []" and same: "\<forall>v \<in> set vecs. dims v = D" and pos: "0 < D"
    and small: "length vecs < 2 ^ 31"
  obtains r where "Bundle vecs = Inr r" and "dims r = D" and "valid r"
    and "\<And>i. vbit r i = (int i < D \<and> length vecs div 2 < onesAt vecs i)"
proof -
  have hd: "dims (hd vecs) = D" using ne same by simp
  have rs: "requireSameDims vecs" using ne same hd by (simp add: requireSameDims_all)
  have p: "0 < dims (hd vecs)" using hd pos by simp
  obtain r where r: "Bundle vecs = Inr r"
    using Bundle_result [OF ne rs p] by blast
  note b = Bundle_bits [OF ne rs p small r]
  have "valid r"
    using p by (intro validI) (simp_all add: b)
  then show thesis
    using r b hd that by simp
qed

lemma onesAt_single: "onesAt [v] i = (if vbit v i then 1 else 0)"
  by (simp add: onesAt_def)

lemma onesAt_triple: "onesAt [v, v, v] i = (if vbit v i then 3 else 0)"
  by (simp add: onesAt_def)

lemma onesAt_pair:
  "onesAt [a, b] i = (if vbit a i then 1 else 0) + (if vbit b i then 1 else 0)"
  by (simp add: onesAt_def)

lemma Bundle_single: "valid v \<Longrightarrow> Bundle [v] = Inr v"
proof -
  assume v: "valid v"
  then have pos: "0 < dims v" by (simp add: valid_def)
  obtain r where r: "Bundle [v] = Inr r" "dims r = dims v" "valid r"
    "\<And>i. vbit r i = (int i < dims v \<and> length [v] div 2 < onesAt [v] i)"
    using Bundle_valid [of "[v]" "dims v"] pos by auto
  have "r = v"
  proof (rule vector_eqI)
    show "dims r = dims v" by fact
    show "length (data r) = length (data v)"
      using r(2,3) v by (simp add: valid_def)
    show "vbit r i = vbit v i" for i
      using valid_vbit_bound [OF v, of i] by (auto simp: r(4) onesAt_single)
  qed
  then show ?thesis using r(1) by simp
qed

lemma Bundle_triple: "valid v \<Longrightarrow> Bundle [v, v, v] = Inr v"
proof -
  assume v: "valid v"
  then have pos: "0 < dims v" by (simp add: valid_def)
  obtain r where r: "Bundle [v, v, v] = Inr r" "dims r = dims v" "valid r"
    "\<And>i. vbit r i = (int i < dims v \<and> length [v, v, v] div 2 < onesAt [v, v, v] i)"
    using Bundle_valid [of "[v, v, v]" "dims v"] pos by auto
  have "r = v"
  proof (rule vector_eqI)
    show "dims r = dims v" by fact
    show "length (data r) = length (data v)"
      using r(2,3) v by (simp add: valid_def)
    show "vbit r i = vbit v i" for i
      using valid_vbit_bound [OF v, of i] by (auto simp: r(4) onesAt_triple)
  qed
  then show ?thesis using r(1) by simp
qed

text \<open>
  Claim C6. \<open>Bundle\<close> panics on an empty list and on vectors whose dimensions disagree.
  On a non-empty list of \<open>k\<close> vectors of one dimension \<open>D\<close> it returns a well-formed
  vector of dimension \<open>D\<close> whose bit \<open>i\<close> is set exactly when more than \<open>k div 2\<close> of
  the inputs have bit \<open>i\<close> set, so a tie of an even \<open>k\<close> gives 0. The counts are
  \<open>int32\<close>, hence the bound on \<open>k\<close>. For a well-formed \<open>v\<close>, \<open>Bundle [v] = v\<close> and
  \<open>Bundle [v, v, v] = v\<close>.
\<close>

theorem Bundle_majority_vote:
  "Bundle [] = Inl EmptyBundle \<and>
   (\<forall>vecs :: Vector list. vecs \<noteq> [] \<and> (\<exists>v \<in> set vecs. dims v \<noteq> dims (hd vecs))
      \<longrightarrow> Bundle vecs = Inl DimensionMismatch) \<and>
   (\<forall>vecs D. vecs \<noteq> [] \<and> (\<forall>v \<in> set vecs. dims v = D) \<and> 0 < D \<and> length vecs < 2 ^ 31
      \<longrightarrow> (\<exists>r. Bundle vecs = Inr r \<and> dims r = D \<and> valid r \<and>
               (\<forall>i. vbit r i = (int i < D \<and> length vecs div 2 < onesAt vecs i)))) \<and>
   (\<forall>v. valid v \<longrightarrow> Bundle [v] = Inr v \<and> Bundle [v, v, v] = Inr v)"
proof (intro conjI allI impI)
  show "Bundle [] = Inl EmptyBundle" by (simp add: Bundle_def)
next
  fix vecs :: "Vector list"
  assume "vecs \<noteq> [] \<and> (\<exists>v \<in> set vecs. dims v \<noteq> dims (hd vecs))"
  then show "Bundle vecs = Inl DimensionMismatch"
    by (auto simp: Bundle_def requireSameDims_all)
next
  fix vecs :: "Vector list" and D
  assume "vecs \<noteq> [] \<and> (\<forall>v \<in> set vecs. dims v = D) \<and> 0 < D \<and> length vecs < 2 ^ 31"
  then show "\<exists>r. Bundle vecs = Inr r \<and> dims r = D \<and> valid r \<and>
               (\<forall>i. vbit r i = (int i < D \<and> length vecs div 2 < onesAt vecs i))"
    using Bundle_valid [of vecs D] by metis
next
  fix v assume "valid v"
  then show "Bundle [v] = Inr v" by (rule Bundle_single)
next
  fix v assume "valid v"
  then show "Bundle [v, v, v] = Inr v" by (rule Bundle_triple)
qed

lemma valid_ex1: "valid \<lparr>dims = 3, data = [5]\<rparr>"
  by (simp add: valid_def numWords_def goQuo_def paddingZero_def)

theorem Bundle_majority_vote_witness:
  "valid \<lparr>dims = 3, data = [5]\<rparr> \<and>
   Bundle [\<lparr>dims = 3, data = [5]\<rparr>] = Inr \<lparr>dims = 3, data = [5]\<rparr> \<and>
   Bundle [\<lparr>dims = 3, data = [5]\<rparr>, \<lparr>dims = 3, data = [5]\<rparr>, \<lparr>dims = 3, data = [5]\<rparr>]
     = Inr \<lparr>dims = 3, data = [5]\<rparr> \<and>
   Bundle [\<lparr>dims = 3, data = [5]\<rparr>, \<lparr>dims = 4, data = [5]\<rparr>] = Inl DimensionMismatch \<and>
   (\<exists>r. Bundle [\<lparr>dims = 3, data = [5]\<rparr>, \<lparr>dims = 3, data = [3]\<rparr>, \<lparr>dims = 3, data = [6]\<rparr>] = Inr r
        \<and> vbit r 0 \<and> vbit r 1 \<and> vbit r 2 \<and> \<not> vbit r 3)"
proof -
  let ?a = "\<lparr>dims = 3, data = [5]\<rparr>" and ?b = "\<lparr>dims = 3, data = [3]\<rparr>"
  let ?c = "\<lparr>dims = 3, data = [6]\<rparr>" and ?e = "\<lparr>dims = 4, data = [5]\<rparr>"
  note main = Bundle_majority_vote
  have v: "valid ?a" by (rule valid_ex1)
  have 1: "Bundle [?a] = Inr ?a \<and> Bundle [?a, ?a, ?a] = Inr ?a"
    using main v by blast
  have 2: "Bundle [?a, ?e] = Inl DimensionMismatch"
    using main [THEN conjunct2, THEN conjunct1, rule_format, of "[?a, ?e]"] by simp
  have 3: "\<exists>r. Bundle [?a, ?b, ?c] = Inr r \<and> dims r = 3 \<and> valid r \<and>
               (\<forall>i. vbit r i = (int i < 3 \<and> length [?a, ?b, ?c] div 2 < onesAt [?a, ?b, ?c] i))"
    using main [THEN conjunct2, THEN conjunct2, THEN conjunct1, rule_format, of "[?a, ?b, ?c]" 3]
    by simp
  then obtain r where r: "Bundle [?a, ?b, ?c] = Inr r"
    "\<And>i. vbit r i = (int i < 3 \<and> length [?a, ?b, ?c] div 2 < onesAt [?a, ?b, ?c] i)"
    by blast
  have "vbit r 0 \<and> vbit r 1 \<and> vbit r 2 \<and> \<not> vbit r 3"
    unfolding r(2) by (simp add: onesAt_def vbit_def)
  then show ?thesis using v 1 2 r(1) by blast
qed

lemma Bundle_pair:
  assumes a: "valid a" and b: "valid b" and d: "dims b = dims a"
  shows "Bundle [a, b] = Inr \<lparr>dims = dims a, data = map2 (AND) (data a) (data b)\<rparr>"
proof -
  have pos: "0 < dims a" using a by (simp add: valid_def)
  obtain r where r: "Bundle [a, b] = Inr r" "dims r = dims a" "valid r"
    "\<And>i. vbit r i = (int i < dims a \<and> length [a, b] div 2 < onesAt [a, b] i)"
    using Bundle_valid [of "[a, b]" "dims a"] pos d by auto
  have len: "length (data a) = length (data r)" "length (data b) = length (data r)"
    using a b r(2,3) d by (simp_all add: valid_def)
  have "r = \<lparr>dims = dims a, data = map2 (AND) (data a) (data b)\<rparr>"
  proof (rule vector_eqI)
    show "dims r = dims \<lparr>dims = dims a, data = map2 (AND) (data a) (data b)\<rparr>"
      using r(2) by simp
    show "length (data r) = length (data \<lparr>dims = dims a, data = map2 (AND) (data a) (data b)\<rparr>)"
      using len by simp
    show "vbit r i = vbit \<lparr>dims = dims a, data = map2 (AND) (data a) (data b)\<rparr> i" for i
    proof -
      have "vbit r i = (vbit a i \<and> vbit b i)"
        using valid_vbit_bound [OF a, of i] by (auto simp: r(4) onesAt_pair)
      also have "\<dots> = vbit \<lparr>dims = dims a, data = map2 (AND) (data a) (data b)\<rparr> i"
        using len by (auto simp: vbit_def bit_and_iff)
      finally show ?thesis .
    qed
  qed
  then show ?thesis using r(1) by simp
qed

text \<open>
  Claim C10. For two well-formed vectors of the same dimension, \<open>Bundle [a, b]\<close> is their
  word-wise AND: with two inputs the threshold is \<open>2 div 2 = 1\<close>, so a bit is set only
  where both inputs have it.
\<close>

theorem Bundle_pair_is_and:
  "valid a \<Longrightarrow> valid b \<Longrightarrow> dims b = dims a \<Longrightarrow>
   Bundle [a, b] = Inr \<lparr>dims = dims a, data = map2 (AND) (data a) (data b)\<rparr>"
  by (rule Bundle_pair)

lemma valid_ex2: "valid \<lparr>dims = 3, data = [3]\<rparr>"
  by (simp add: valid_def numWords_def goQuo_def paddingZero_def)

theorem Bundle_pair_is_and_witness:
  "valid \<lparr>dims = 3, data = [5]\<rparr> \<and> valid \<lparr>dims = 3, data = [3]\<rparr> \<and>
   Bundle [\<lparr>dims = 3, data = [5]\<rparr>, \<lparr>dims = 3, data = [3]\<rparr>] = Inr \<lparr>dims = 3, data = [1]\<rparr>"
  using Bundle_pair_is_and [OF valid_ex1 valid_ex2] valid_ex1 valid_ex2 by simp

lemma length_permuteStep [simp]: "length (permuteStep r i) = length r"
  by (simp add: permuteStep_def)

lemma length_foldl_permuteStep [simp]: "length (foldl permuteStep r is) = length r"
  by (induction "is" arbitrary: r) simp_all

lemma permuteStep_nth:
  "i < length r \<Longrightarrow>
   permuteStep r n ! i =
     (if i = n then drop_bit 1 (r ! n) OR push_bit 63 (r ! (n + 1) AND 1) else r ! i)"
  by (simp add: permuteStep_def nth_list_update del: push_bit_and)

lemma foldl_permuteStep_nth:
  "n < length xs \<Longrightarrow> i < length xs \<Longrightarrow>
   foldl permuteStep xs [0..<n] ! i =
     (if i < n then drop_bit 1 (xs ! i) OR push_bit 63 (xs ! (i + 1) AND 1) else xs ! i)"
proof (induction n arbitrary: i)
  case 0
  then show ?case by simp
next
  case (Suc n)
  have n: "n < length xs" and sn: "Suc n < length xs" using Suc.prems by simp_all
  have a: "foldl permuteStep xs [0..<n] ! n = xs ! n"
    using Suc.IH [OF n n] by simp
  have b: "foldl permuteStep xs [0..<n] ! Suc n = xs ! Suc n"
    using Suc.IH [OF n sn] by simp
  have c: "foldl permuteStep xs [0..<n] ! i =
     (if i < n then drop_bit 1 (xs ! i) OR push_bit 63 (xs ! (i + 1) AND 1) else xs ! i)"
    using Suc.IH [OF n Suc.prems(2)] .
  show ?case
    using Suc.prems n
    by (simp add: permuteStep_nth a b c less_Suc_eq del: push_bit_and)
qed

lemma bit_shifted_word:
  "bit (drop_bit 1 (x :: 64 word) OR push_bit 63 (y AND 1)) b =
     (b < 64 \<and> (if b = 63 then bit y 0 else bit x (b + 1)))"
  by (auto simp: bit_or_iff bit_drop_bit_eq bit_push_bit_iff bit_and_iff bit_1_iff
        dest: bit_imp_le_length)

lemma bit_last_word:
  "h < 64 \<Longrightarrow>
   bit (drop_bit 1 (x :: 64 word) OR push_bit h (y AND 1)) b =
     (bit x (b + 1) \<or> (b = h \<and> bit y 0))"
  by (auto simp: bit_or_iff bit_drop_bit_eq bit_push_bit_iff bit_and_iff bit_1_iff
        possible_bit_word simp del: push_bit_and dest: bit_imp_le_length)


lemma succ_same_word:
  fixes i :: nat
  assumes "i mod 64 < 63"
  shows "Suc i div 64 = i div 64" and "Suc i mod 64 = Suc (i mod 64)"
proof -
  define q r where "q = i div 64" and "r = i mod 64"
  have i: "i = q * 64 + r" and r: "r < 63" using assms by (simp_all add: q_def r_def)
  have "(q * 64 + r + 1) div 64 = q" "(q * 64 + r + 1) mod 64 = r + 1"
    using r by simp_all
  then show "Suc i div 64 = i div 64" and "Suc i mod 64 = Suc (i mod 64)"
    unfolding i [symmetric] by (simp_all add: q_def r_def)
qed

lemma succ_next_word:
  fixes i :: nat
  assumes "i mod 64 = 63"
  shows "Suc i div 64 = Suc (i div 64)" and "Suc i mod 64 = 0"
proof -
  define q where "q = i div 64"
  have "i = i div 64 * 64 + i mod 64" by simp
  then have i: "i = q * 64 + 63" using assms by (simp only: q_def)
  have "(q * 64 + 63 + 1) div 64 = q + 1" "(q * 64 + 63 + 1) mod 64 = 0"
    by simp_all
  then show "Suc i div 64 = Suc (i div 64)" and "Suc i mod 64 = 0"
    unfolding i [symmetric] by (simp_all add: q_def)
qed

lemma last_word_index:
  fixes D :: nat
  assumes "0 < D"
  shows "(D + 63) div 64 - 1 = (D - 1) div 64"
proof -
  define q r where "q = (D - 1) div 64" and "r = (D - 1) mod 64"
  have "D - 1 = 64 * q + r" and r: "r < 64" by (simp_all add: q_def r_def)
  then have D: "D + 63 = 64 * (q + 1) + r" using assms by simp
  have "(D + 63) div 64 = q + 1"
    unfolding D using r by (intro div_nat_eqI) simp_all
  then show ?thesis by (simp add: q_def)
qed

lemma highBit_nat:
  assumes "0 < D"
  shows "toUint (goRem (int D - 1) 64) = (D - 1) mod 64"
proof -
  have eq: "int D - 1 = int (D - 1)" using assms by simp
  have "goRem (int (D - 1)) 64 = int (D - 1) mod 64"
    by (rule goRem_nonneg) simp_all
  also have "\<dots> = int ((D - 1) mod 64)"
    by (simp only: zmod_int of_nat_numeral)
  finally have "goRem (int D - 1) 64 = int ((D - 1) mod 64)"
    by (simp only: eq)
  moreover have "toUint (int ((D - 1) mod 64)) = (D - 1) mod 64"
    by (subst toUint_small) simp_all
  ultimately show ?thesis by simp
qed


lemma valid_nat:
  assumes "valid v"
  obtains D where "dims v = int D" and "0 < D" and "length (data v) = (D + 63) div 64"
    and "0 < length (data v)"
proof -
  obtain D where D: "dims v = int D" "0 < D"
    using assms dims_nat [of v] by (auto simp: valid_def)
  have len: "length (data v) = (D + 63) div 64"
    using assms D numWords_int [of D] by (auto simp: valid_def)
  have "0 < (D + 63) div 64" using D by (simp add: div_greater_zero_iff)
  then show thesis using D len that by simp
qed

lemma Permute_result:
  assumes v: "valid v"
  shows "Permute v = Inr \<lparr>dims = dims v,
           data = (foldl permuteStep (data v) [0..<length (data v) - 1])
                    [length (data v) - 1 :=
                       drop_bit 1 (data v ! (length (data v) - 1))
                         OR push_bit ((nat (dims v) - 1) mod 64) (data v ! 0 AND 1)]\<rparr>"
proof -
  obtain D where D: "dims v = int D" "0 < D" "length (data v) = (D + 63) div 64"
    "0 < length (data v)"
    using v by (rule valid_nat)
  have last: "foldl permuteStep (data v) [0..<length (data v) - 1] ! (length (data v) - 1)
                = data v ! (length (data v) - 1)"
    using D(4) by (subst foldl_permuteStep_nth) simp_all
  show ?thesis
    using D(4) last by (simp add: Permute_def Clone_def Let_def D(1) highBit_nat [OF D(2)]
        del: push_bit_and)
qed

lemma Permute_word:
  assumes v: "valid v" and r: "Permute v = Inr r" and j: "j < length (data v)"
  shows "j = length (data v) - 1 \<Longrightarrow>
           data r ! j = drop_bit 1 (data v ! j)
                          OR push_bit ((nat (dims v) - 1) mod 64) (data v ! 0 AND 1)"
    and "j \<noteq> length (data v) - 1 \<Longrightarrow>
           data r ! j = drop_bit 1 (data v ! j) OR push_bit 63 (data v ! (j + 1) AND 1)"
proof -
  have r': "r = \<lparr>dims = dims v,
           data = (foldl permuteStep (data v) [0..<length (data v) - 1])
                    [length (data v) - 1 :=
                       drop_bit 1 (data v ! (length (data v) - 1))
                         OR push_bit ((nat (dims v) - 1) mod 64) (data v ! 0 AND 1)]\<rparr>"
    using Permute_result [OF v] r by simp
  show "data r ! j = drop_bit 1 (data v ! j)
                          OR push_bit ((nat (dims v) - 1) mod 64) (data v ! 0 AND 1)"
    if "j = length (data v) - 1"
    using j that by (simp add: r' del: push_bit_and)
  show "data r ! j = drop_bit 1 (data v ! j) OR push_bit 63 (data v ! (j + 1) AND 1)"
    if "j \<noteq> length (data v) - 1"
  proof -
    have "j < length (data v) - 1" using j that by simp
    then show ?thesis
      using j that by (simp add: r' foldl_permuteStep_nth del: push_bit_and)
  qed
qed

lemma Permute_dims:
  assumes v: "valid v" and r: "Permute v = Inr r"
  shows "dims r = dims v" and "length (data r) = length (data v)"
  using Permute_result [OF v] r by auto


lemma vbit_succ:
  "vbit v (Suc i) =
     (if i mod 64 = 63 then Suc (i div 64) < length (data v) \<and> bit (data v ! Suc (i div 64)) 0
      else i div 64 < length (data v) \<and> bit (data v ! (i div 64)) (Suc (i mod 64)))"
proof (cases "i mod 64 = 63")
  case True
  then show ?thesis using succ_next_word [OF True] by (simp add: vbit_def)
next
  case False
  then have "i mod 64 < 63"
    using mod_less_divisor [of 64 i] by linarith
  then show ?thesis using False succ_same_word [of i] by (simp add: vbit_def)
qed

lemma Permute_vbit:
  assumes v: "valid v" and r: "Permute v = Inr r"
  shows "vbit r i = (int i < dims v \<and> vbit v (Suc i mod nat (dims v)))"
proof -
  obtain D where D: "dims v = int D" "0 < D" "length (data v) = (D + 63) div 64"
    "0 < length (data v)"
    using v by (rule valid_nat)
  define W L h q b where "W = length (data v)" and "L = (D - 1) div 64"
    and "h = (D - 1) mod 64" and "q = i div 64" and "b = i mod 64"
  have WL: "W = L + 1"
    using last_word_index [OF D(2)] D(3,4) by (simp add: W_def L_def)
  have Dm: "D - 1 = L * 64 + h" and h: "h < 64" by (simp_all add: L_def h_def)
  have Deq: "D = L * 64 + h + 1" using Dm D(2) by simp
  have i: "i = q * 64 + b" and b: "b < 64" by (simp_all add: q_def b_def)
  have lenr: "length (data r) = W" using Permute_dims [OF v r] by (simp add: W_def)
  have nd: "nat (dims v) = D" by (simp add: D(1))
  have lt: "(int i < dims v) = (i < D)" by (simp add: D(1))
  have bound: "vbit v k \<Longrightarrow> k < D" for k
    using valid_vbit_bound [OF v, of k] by (simp add: D(1))
  have hi: "\<not> bit (data v ! j) 64" for j
    by (auto dest: bit_imp_le_length)
  have vr: "vbit r i = (q < W \<and> bit (data r ! q) b)"
    by (simp add: vbit_def lenr q_def b_def)
  have vs: "vbit v (Suc i) =
     (if b = 63 then Suc q < W \<and> bit (data v ! Suc q) 0
      else q < W \<and> bit (data v ! q) (Suc b))"
    unfolding q_def b_def W_def by (rule vbit_succ)
  have wlast: "data r ! q = drop_bit 1 (data v ! q) OR push_bit h (data v ! 0 AND 1)"
    if "q = L"
  proof -
    have "q < length (data v)" "q = length (data v) - 1"
      using that WL by (simp_all add: W_def [symmetric])
    then show ?thesis
      using Permute_word(1) [OF v r, of q] by (simp only: nd h_def)
  qed
  have blast: "bit (data r ! q) b = (bit (data v ! q) (Suc b) \<or> (b = h \<and> bit (data v ! 0) 0))"
    if "q = L"
    unfolding wlast [OF that] bit_last_word [OF h] by simp
  consider "W \<le> q" | "q < L" | "q = L" "b < h" | "q = L" "b = h" | "q = L" "h < b"
    using WL by linarith
  then show ?thesis
  proof cases
    case 1
    then have "\<not> vbit r i" by (simp add: vr)
    moreover have "\<not> i < D" using 1 WL i Deq h by simp
    ultimately show ?thesis by (simp add: lt)
  next
    case 2
    have qW: "q < length (data v)" and qL: "q \<noteq> length (data v) - 1"
      using 2 WL by (simp_all add: W_def [symmetric])
    have w: "data r ! q = drop_bit 1 (data v ! q) OR push_bit 63 (data v ! (q + 1) AND 1)"
      using Permute_word(2) [OF v r qW qL] .
    have i1: "Suc i < D" using 2 i b Deq by simp
    have "bit (data r ! q) b = (if b = 63 then bit (data v ! (q + 1)) 0 else bit (data v ! q) (b + 1))"
      unfolding w bit_shifted_word using b by simp
    then have "vbit r i = vbit v (Suc i)"
      using 2 WL by (simp add: vr vs)
    then show ?thesis using i1 by (simp add: lt nd)
  next
    case 3
    have i1: "Suc i < D" using 3 i Deq by simp
    have b63: "b \<noteq> 63" using 3 h by simp
    have "vbit r i = vbit v (Suc i)"
      using 3 WL b63 blast [OF 3(1)] by (simp add: vr vs)
    then show ?thesis using i1 by (simp add: lt nd)
  next
    case 4
    have iD: "Suc i = D" using 4 i Deq by simp
    have nb: "\<not> bit (data v ! q) (Suc b)"
    proof (cases "b = 63")
      case True
      then show ?thesis using hi [of q] by simp
    next
      case False
      have "\<not> vbit v (Suc i)" using bound [of "Suc i"] iD by auto
      then show ?thesis using 4 WL False by (simp add: vs)
    qed
    have "vbit r i = bit (data v ! 0) 0"
      using 4 WL nb blast [OF 4(1)] by (simp add: vr)
    also have "\<dots> = vbit v 0"
      using D(4) by (simp add: vbit_def)
    finally show ?thesis using iD by (simp add: lt nd)
  next
    case 5
    have iD: "D \<le> i" using 5 i Deq by simp
    have nb: "\<not> bit (data v ! q) (Suc b)"
    proof (cases "b = 63")
      case True
      then show ?thesis using hi [of q] by simp
    next
      case False
      have "\<not> vbit v (Suc i)" using bound [of "Suc i"] iD by auto
      then show ?thesis using 5 WL False by (simp add: vs)
    qed
    have "\<not> vbit r i"
      using 5 WL nb blast [OF 5(1)] by (simp add: vr)
    then show ?thesis using iD by (simp add: lt)
  qed
qed

lemma valid_len: "valid v \<Longrightarrow> length (data v) = nat (numWords (dims v))"
  unfolding valid_def by (metis nat_int)

lemma Permute_valid:
  assumes v: "valid v"
  shows "\<exists>r. Permute v = Inr r \<and> valid r \<and> dims r = dims v \<and>
           (\<forall>i. vbit r i = (int i < dims v \<and> vbit v (Suc i mod nat (dims v))))"
proof -
  obtain r where r: "Permute v = Inr r"
    using Permute_result [OF v] by blast
  have d: "dims r = dims v" and l: "length (data r) = length (data v)"
    using Permute_dims [OF v r] by simp_all
  have "valid r"
  proof (rule validI)
    show "0 < dims r" using v d by (simp add: valid_def)
    show "length (data r) = nat (numWords (dims r))"
      using valid_len [OF v] d l by simp
    show "int i < dims r" if "vbit r i" for i
      using that Permute_vbit [OF v r, of i] d by simp
  qed
  then show ?thesis
    using r d Permute_vbit [OF v r] by blast
qed

lemma PermuteN_valid:
  assumes v: "valid v"
  shows "\<exists>r. PermuteN n v = Inr r \<and> valid r \<and> dims r = dims v \<and>
           (\<forall>i. vbit r i = (int i < dims v \<and> vbit v ((i + n) mod nat (dims v))))"
  using v
proof (induction n arbitrary: v)
  case 0
  have bits: "vbit v i = (int i < dims v \<and> vbit v ((i + 0) mod nat (dims v)))" for i
  proof (cases "int i < dims v")
    case True
    then have "i mod nat (dims v) = i" by simp
    then show ?thesis using True by simp
  next
    case False
    then show ?thesis using valid_vbit_bound [OF 0, of i] by blast
  qed
  have "PermuteN 0 v = Inr v" by simp
  then show ?case using 0 bits by blast
next
  case (Suc n)
  obtain r1 where r1: "Permute v = Inr r1" "valid r1" "dims r1 = dims v"
    and b1: "\<And>i. vbit r1 i = (int i < dims v \<and> vbit v (Suc i mod nat (dims v)))"
    using Permute_valid [OF Suc.prems] by blast
  obtain r where r: "PermuteN n r1 = Inr r" "valid r" "dims r = dims r1"
    and b: "\<And>i. vbit r i = (int i < dims r1 \<and> vbit r1 ((i + n) mod nat (dims r1)))"
    using Suc.IH [OF r1(2)] by blast
  have pos: "0 < nat (dims v)" using Suc.prems by (simp add: valid_def)
  have bits: "vbit r i = (int i < dims v \<and> vbit v ((i + Suc n) mod nat (dims v)))" for i
  proof -
    have lt: "int ((i + n) mod nat (dims v)) < dims v"
      using pos mod_less_divisor [OF pos, of "i + n"] by linarith
    have "vbit r i = (int i < dims v \<and> vbit r1 ((i + n) mod nat (dims v)))"
      by (simp only: b r1(3))
    also have "vbit r1 ((i + n) mod nat (dims v)) = vbit v (Suc ((i + n) mod nat (dims v)) mod nat (dims v))"
      using lt by (simp only: b1 simp_thms)
    also have "Suc ((i + n) mod nat (dims v)) mod nat (dims v) = (i + Suc n) mod nat (dims v)"
      by (simp only: mod_Suc_eq add_Suc_right)
    finally show ?thesis .
  qed
  have "PermuteN (Suc n) v = Inr r" using r1(1) r(1) by simp
  moreover have "dims r = dims v" using r(3) r1(3) by simp
  ultimately show ?case using r(2) bits by blast
qed

lemma Permute_cycle:
  assumes v: "valid v"
  shows "PermuteN (nat (dims v)) v = Inr v"
proof -
  obtain r where r: "PermuteN (nat (dims v)) v = Inr r" "valid r" "dims r = dims v"
    and b: "\<And>i. vbit r i = (int i < dims v \<and> vbit v ((i + nat (dims v)) mod nat (dims v)))"
    using PermuteN_valid [OF v, of "nat (dims v)"] by blast
  have "r = v"
  proof (rule vector_eqI)
    show "dims r = dims v" by fact
    show "length (data r) = length (data v)"
      using valid_len [OF r(2)] valid_len [OF v] r(3) by simp
    show "vbit r i = vbit v i" for i
    proof (cases "int i < dims v")
      case True
      then have "(i + nat (dims v)) mod nat (dims v) = i" by simp
      then show ?thesis using True by (simp only: b simp_thms)
    next
      case False
      then have "\<not> vbit v i" using valid_vbit_bound [OF v, of i] by blast
      then show ?thesis using False by (simp only: b simp_thms)
    qed
  qed
  then show ?thesis using r(1) by simp
qed

text \<open>
  Claim C7. On a well-formed vector of dimension \<open>D\<close>, \<open>Permute\<close> returns a well-formed
  vector of the same dimension whose bit \<open>i\<close> is bit \<open>(i + 1) mod D\<close> of the input, so bit
  0 moves to position \<open>D - 1\<close> and every other bit moves down by one; \<open>D\<close> applications
  give the input back. \<open>D\<close> need not be a multiple of 64.
\<close>

theorem Permute_cyclic_shift:
  "valid v \<Longrightarrow>
   (\<exists>r. Permute v = Inr r \<and> dims r = dims v \<and> valid r \<and>
        (\<forall>i. int i < dims v \<longrightarrow> vbit r i = vbit v ((i + 1) mod nat (dims v)))) \<and>
   PermuteN (nat (dims v)) v = Inr v"
proof -
  assume v: "valid v"
  obtain r where r: "Permute v = Inr r" "valid r" "dims r = dims v"
    and b: "\<And>i. vbit r i = (int i < dims v \<and> vbit v (Suc i mod nat (dims v)))"
    using Permute_valid [OF v] by blast
  have "vbit r i = vbit v ((i + 1) mod nat (dims v))" if "int i < dims v" for i
    using that by (simp only: b simp_thms Suc_eq_plus1)
  then have "\<exists>r. Permute v = Inr r \<and> dims r = dims v \<and> valid r \<and>
        (\<forall>i. int i < dims v \<longrightarrow> vbit r i = vbit v ((i + 1) mod nat (dims v)))"
    using r by blast
  then show ?thesis
    using Permute_cycle [OF v] by (rule conjI)
qed

lemma valid_ex3: "valid \<lparr>dims = 65, data = [1, 0]\<rparr>"
  by (simp add: valid_def numWords_def goQuo_def paddingZero_def)

theorem Permute_cyclic_shift_witness:
  "valid \<lparr>dims = 65, data = [1, 0]\<rparr> \<and>
   Permute \<lparr>dims = 65, data = [1, 0]\<rparr> = Inr \<lparr>dims = 65, data = [0, 1]\<rparr> \<and>
   PermuteN 65 \<lparr>dims = 65, data = [1, 0]\<rparr> = Inr \<lparr>dims = 65, data = [1, 0]\<rparr>"
proof -
  have "Permute \<lparr>dims = 65, data = [1, 0]\<rparr> = Inr \<lparr>dims = 65, data = [0, 1]\<rparr>"
    by code_simp
  then show ?thesis
    using Permute_cyclic_shift [OF valid_ex3] valid_ex3 by simp
qed

lemma New_valid: "New d = Inr v \<Longrightarrow> valid v"
  by (auto simp: New_def valid_def paddingZero_def numWords_pos split: if_splits)

lemma New_pos: "0 < d \<Longrightarrow> New d = Inr \<lparr>dims = d, data = replicate (nat (numWords d)) 0\<rparr>"
  by (simp add: New_def)


lemma numWords_gt0: "0 < d \<Longrightarrow> 0 < numWords d"
  by (simp add: numWords_pos)

lemma drop_bit_masked: "drop_bit n ((w :: 64 word) AND (push_bit n 1 - 1)) = 0"
proof -
  have "(push_bit n 1 - 1 :: 64 word) = mask n"
    by (simp add: mask_eq_exp_minus_1 push_bit_eq_mult)
  then have "w AND (push_bit n 1 - 1) = take_bit n w"
    by (simp add: take_bit_eq_mask)
  then show ?thesis by (simp add: drop_bit_take_bit)
qed

lemma zeroPadding_valid:
  assumes d: "0 < d" and len: "int (length ws) = numWords d"
  shows "\<exists>ws'. zeroPadding ws d = Inr ws' \<and> length ws' = length ws \<and>
           valid \<lparr>dims = d, data = ws'\<rparr>"
proof -
  have rem: "goRem d 64 = d mod 64" using d by (simp add: goRem_nonneg)
  have ne: "ws \<noteq> []" using numWords_gt0 [OF d] len by auto
  show ?thesis
  proof (cases "d mod 64 = 0")
    case True
    then show ?thesis using d len by (simp add: zeroPadding_def rem valid_def paddingZero_def)
  next
    case False
    have u: "toUint (d mod 64) = nat (d mod 64)" by (simp add: toUint_small)
    define ws' where
      "ws' = ws[length ws - 1 := ws ! (length ws - 1) AND (push_bit (nat (d mod 64)) 1 - 1)]"
    have zp: "zeroPadding ws d = Inr ws'"
      using False ne by (simp add: zeroPadding_def rem u ws'_def del: push_bit_of_1)
    have l: "length ws' = length ws" by (simp add: ws'_def)
    have "last ws' = ws ! (length ws - 1) AND (push_bit (nat (d mod 64)) 1 - 1)"
      using ne by (simp add: last_conv_nth ws'_def del: push_bit_of_1)
    then have "drop_bit (nat (d mod 64)) (last ws') = 0"
      by (simp only: drop_bit_masked)
    then have "paddingZero \<lparr>dims = d, data = ws'\<rparr>"
      by (simp add: paddingZero_def)
    then have "valid \<lparr>dims = d, data = ws'\<rparr>"
      using d len l by (simp add: valid_def)
    then show ?thesis using zp l by blast
  qed
qed

lemma FromWords_valid: "FromWords d ws = Inr v \<Longrightarrow> valid v"
proof -
  assume a: "FromWords d ws = Inr v"
  then have d: "0 < d" and len: "int (length ws) = numWords d"
    by (auto simp: FromWords_def Let_def split: if_splits)
  obtain ws' where w: "zeroPadding ws d = Inr ws'" "valid \<lparr>dims = d, data = ws'\<rparr>"
    using zeroPadding_valid [OF d len] by blast
  then show ?thesis using a d len by (simp add: FromWords_def Let_def)
qed

lemma Random_ok:
  assumes d: "0 < d"
  shows "\<exists>v. Random lib d seed = Inr v \<and> valid v \<and> dims v = d"
proof -
  let ?ws = "map (Uint64 lib seed) [0..<nat (numWords d)]"
  have len: "int (length ?ws) = numWords d" using numWords_gt0 [OF d] by simp
  obtain ws' where w: "zeroPadding ?ws d = Inr ws'" "valid \<lparr>dims = d, data = ws'\<rparr>"
    using zeroPadding_valid [OF d len] by blast
  then show ?thesis using d by (simp add: Random_def New_pos)
qed

lemma Random_valid: "Random lib d seed = Inr v \<Longrightarrow> valid v \<and> dims v = d"
proof -
  assume a: "Random lib d seed = Inr v"
  then have "0 < d" by (auto simp: Random_def New_def split: if_splits sum.splits)
  then show ?thesis using Random_ok [of d lib seed] a by auto
qed

lemma Clone_id: "Clone v = v"
  by (simp add: Clone_def)

lemma Bind_result:
  assumes a: "valid a" and b: "valid b" and d: "dims b = dims a"
  shows "Bind a b = Inr \<lparr>dims = dims a, data = map2 (XOR) (data a) (data b)\<rparr>"
proof -
  have pos: "0 < dims a" using a by (simp add: valid_def)
  have la: "length (data a) = nat (numWords (dims a))" using a by (rule valid_len)
  have lb: "length (data b) = nat (numWords (dims a))" using valid_len [OF b] d by simp
  have "map (\<lambda>i. data a ! i XOR data b ! i) [0..<nat (numWords (dims a))]
          = map2 (XOR) (data a) (data b)"
    by (rule nth_equalityI) (simp_all add: la lb)
  then show ?thesis
    using pos d la lb by (simp add: Bind_def New_pos)
qed

lemma Bind_valid:
  assumes a: "valid a" and b: "valid b" and r: "Bind a b = Inr r"
  shows "valid r \<and> dims r = dims a"
proof -
  have d: "dims b = dims a" using r by (auto simp: Bind_def split: if_splits)
  have r': "r = \<lparr>dims = dims a, data = map2 (XOR) (data a) (data b)\<rparr>"
    using Bind_result [OF a b d] r by simp
  have la: "length (data a) = nat (numWords (dims a))" using a by (rule valid_len)
  have lb: "length (data b) = nat (numWords (dims a))" using valid_len [OF b] d by simp
  have "valid r"
  proof (rule validI)
    show "0 < dims r" using a by (simp add: r' valid_def)
    show "length (data r) = nat (numWords (dims r))" by (simp add: r' la lb)
    show "int i < dims r" if "vbit r i" for i
    proof -
      have "vbit a i \<or> vbit b i"
        using that la lb by (auto simp: r' vbit_def bit_xor_iff)
      then show ?thesis
        using valid_vbit_bound [OF a, of i] valid_vbit_bound [OF b, of i] d by (auto simp: r')
    qed
  qed
  then show ?thesis by (simp add: r')
qed

lemma Bundle_returns_valid:
  assumes r: "Bundle vecs = Inr r"
  shows "valid r \<and> dims r = dims (hd vecs)"
proof -
  have ne: "vecs \<noteq> []" and same: "requireSameDims vecs"
    using r by (auto simp: Bundle_def split: if_splits)
  have pos: "0 < dims (hd vecs)"
    using r ne same by (auto simp: Bundle_def Let_def New_def split: if_splits)
  let ?d = "dims (hd vecs)"
  let ?counts = "foldl (countVec ?d) (replicate (nat ?d) 0) vecs"
  have r': "r = \<lparr>dims = ?d, data = foldl (setMajority (int (length vecs div 2)))
                     (replicate (nat (numWords ?d)) 0) (enumerate 0 ?counts)\<rparr>"
    using Bundle_result [OF ne same pos] r by simp
  have "valid r"
  proof (rule validI)
    show "0 < dims r" using pos by (simp add: r')
    show "length (data r) = nat (numWords (dims r))" by (simp add: r')
    show "int i < dims r" if "vbit r i" for i
    proof -
      have iw: "i div 64 < nat (numWords ?d)" and
        bt: "bit (data r ! (i div 64)) (i mod 64)"
        using that by (simp_all add: vbit_def r')
      have "bit (data r ! (i div 64)) (i mod 64) =
            (i < nat ?d \<and> int (length vecs div 2) < sint (?counts ! i))"
        using iw by (simp add: r' foldl_setMajority_bit)
      then show ?thesis using bt by (simp add: r' zless_nat_eq_int_zless)
    qed
  qed
  then show ?thesis by (simp add: r')
qed

lemma symbolTable_get_cached:
  "table t c = Some v \<Longrightarrow> symbolTable_get lib t c = Inr (v, t)"
  by (simp add: symbolTable_get_def)

lemma symbolTable_get_fresh:
  "table t c = None \<Longrightarrow> Random lib (tdims t) (symbolSeed (tseed t) c) = Inr v \<Longrightarrow>
   symbolTable_get lib t c = Inr (v, t\<lparr>table := (table t)(c \<mapsto> v)\<rparr>)"
  by (simp add: symbolTable_get_def)

lemma symbolTable_get_consistent:
  assumes d: "0 < tdims t" and c: "symConsistent lib t"
  shows "\<exists>v t'. Random lib (tdims t) (symbolSeed (tseed t) r) = Inr v \<and>
           symbolTable_get lib t r = Inr (v, t') \<and>
           t' = (if table t r = None then t\<lparr>table := (table t)(r \<mapsto> v)\<rparr> else t) \<and>
           tdims t' = tdims t \<and> tseed t' = tseed t \<and> symConsistent lib t'"
proof -
  obtain v where v: "Random lib (tdims t) (symbolSeed (tseed t) r) = Inr v"
    using Random_ok [OF d] by blast
  show ?thesis
  proof (cases "table t r")
    case None
    have "symConsistent lib (t\<lparr>table := (table t)(r \<mapsto> v)\<rparr>)"
      using c v by (auto simp: symConsistent_def)
    then show ?thesis
      using None v symbolTable_get_fresh [OF None v] by simp
  next
    case (Some u)
    then have "u = v" using c v by (auto simp: symConsistent_def)
    then show ?thesis
      using Some v c symbolTable_get_cached [OF Some] by simp
  qed
qed

text \<open>
  Claim C3, amended. In a table of positive dimension whose cached vectors are
  consistent, resolving code point \<open>c\<close> returns \<open>Random D ((seed XOR c * 2654435761) + 1)\<close>
  in unsigned 64-bit arithmetic, caching it on the first access; so two tables with the
  same seed and dimension resolve every code point to the same vector.
\<close>

theorem symbol_vector_seed:
  "0 < tdims t \<Longrightarrow> symConsistent lib t \<Longrightarrow>
   (\<exists>v. Random lib (tdims t) ((tseed t XOR (scast c * 2654435761)) + 1) = Inr v \<and>
        symbolTable_get lib t c =
          Inr (v, if table t c = None then t\<lparr>table := (table t)(c \<mapsto> v)\<rparr> else t) \<and>
        (\<forall>t'. tdims t' = tdims t \<and> tseed t' = tseed t \<and> symConsistent lib t'
           \<longrightarrow> map_sum id fst (symbolTable_get lib t' c) = Inr v))"
proof -
  assume d: "0 < tdims t" and c: "symConsistent lib t"
  obtain v where v: "Random lib (tdims t) (symbolSeed (tseed t) c) = Inr v"
    "symbolTable_get lib t c =
       Inr (v, if table t c = None then t\<lparr>table := (table t)(c \<mapsto> v)\<rparr> else t)"
    using symbolTable_get_consistent [OF d c, of c] by auto
  have "map_sum id fst (symbolTable_get lib t' c) = Inr v"
    if "tdims t' = tdims t \<and> tseed t' = tseed t \<and> symConsistent lib t'" for t'
  proof -
    have d': "0 < tdims t'" and c': "symConsistent lib t'" using that d by simp_all
    show ?thesis
      using symbolTable_get_consistent [OF d' c', of c] v(1) that by auto
  qed
  then show ?thesis
    using v by (auto simp: symbolSeed_def)
qed

theorem symbol_vector_seed_witness:
  "symConsistent testlib \<lparr>tdims = 64, tseed = 1, table = Map.empty\<rparr> \<and>
   Random testlib 64 ((1 XOR (scast (1 :: rune) * 2654435761)) + 1)
     = Inr \<lparr>dims = 64, data = [2654435761]\<rparr> \<and>
   map_sum id fst (symbolTable_get testlib \<lparr>tdims = 64, tseed = 1, table = Map.empty\<rparr> 1)
     = Inr \<lparr>dims = 64, data = [2654435761]\<rparr>"
proof -
  let ?t = "\<lparr>tdims = 64, tseed = 1, table = Map.empty\<rparr>"
  have c: "symConsistent testlib ?t" by (simp add: symConsistent_def)
  have d: "0 < tdims ?t" by simp
  have r: "Random testlib 64 ((1 XOR (scast (1 :: rune) * 2654435761)) + 1)
     = Inr \<lparr>dims = 64, data = [2654435761]\<rparr>"
    by code_simp
  show ?thesis
    using symbol_vector_seed [OF d c, of 1] c r by auto
qed

theorem symbol_vector_spec_seed_counterexample:
  "symbolSeed 1 1 = 2654435761 \<and>
   1 XOR (scast (1 :: rune) * 2654435761 + 1) = (2654435763 :: 64 word) \<and>
   map_sum id fst (symbolTable_get testlib \<lparr>tdims = 64, tseed = 1, table = Map.empty\<rparr> 1)
     \<noteq> Random testlib 64 (1 XOR (scast (1 :: rune) * 2654435761 + 1))"
proof -
  have 1: "symbolSeed 1 1 = 2654435761" by code_simp
  have 2: "1 XOR (scast (1 :: rune) * 2654435761 + 1) = (2654435763 :: 64 word)" by code_simp
  have 3: "Random testlib 64 2654435761 = Inr \<lparr>dims = 64, data = [2654435761]\<rparr>" by code_simp
  have 4: "Random testlib 64 2654435763 = Inr \<lparr>dims = 64, data = [2654435763]\<rparr>" by code_simp
  have "map_sum id fst (symbolTable_get testlib \<lparr>tdims = 64, tseed = 1, table = Map.empty\<rparr> 1)
          = Inr \<lparr>dims = 64, data = [2654435761]\<rparr>"
    by (simp add: symbolTable_get_def 1 3)
  then show ?thesis by (simp add: 1 2 4)
qed

lemma get_ok:
  assumes c: "0 < Dims c" and t: "tabOK c t"
  shows "\<exists>v t'. symbolTable_get lib t r = Inr (v, t') \<and> valid v \<and> dims v = Dims c \<and> tabOK c t'"
proof (cases "table t r")
  case None
  have d: "0 < tdims t" using c t by (simp add: tabOK_def)
  obtain v where v: "Random lib (tdims t) (symbolSeed (tseed t) r) = Inr v" "valid v"
    "dims v = tdims t"
    using Random_ok [OF d] by blast
  have "tabOK c (t\<lparr>table := (table t)(r \<mapsto> v)\<rparr>)"
    using t v by (auto simp: tabOK_def)
  then show ?thesis
    using symbolTable_get_fresh [OF None v(1)] v t by (auto simp: tabOK_def)
next
  case (Some v)
  then show ?thesis
    using symbolTable_get_cached [OF Some] t by (auto simp: tabOK_def)
qed

lemma forEach_ok:
  assumes step: "\<And>t x. I t \<Longrightarrow> x \<in> set xs \<Longrightarrow> \<exists>y t'. f t x = Inr (y, t') \<and> Q y \<and> I t'"
    and "I t"
  shows "\<exists>ys t'. forEach f t xs = Inr (ys, t') \<and> list_all Q ys \<and> length ys = length xs \<and> I t'"
  using assms
proof (induction xs arbitrary: t)
  case Nil
  then show ?case by simp
next
  case (Cons x xs)
  obtain y t1 where 1: "f t x = Inr (y, t1)" "Q y" "I t1"
    using Cons.prems(1) [OF Cons.prems(2), of x] by auto
  have "\<exists>ys t'. forEach f t1 xs = Inr (ys, t') \<and> list_all Q ys \<and> length ys = length xs \<and> I t'"
  proof (rule Cons.IH)
    show "\<exists>y t'. f t x = Inr (y, t') \<and> Q y \<and> I t'" if "I t" "x \<in> set xs" for t x
      using Cons.prems(1) [OF that(1), of x] that(2) by simp
    show "I t1" by fact
  qed
  then obtain ys t2 where 2: "forEach f t1 xs = Inr (ys, t2)" "list_all Q ys"
    "length ys = length xs" "I t2"
    by blast
  show ?case using 1 2 by simp
qed

lemma forEach_cong:
  assumes eq: "\<And>t x. I t \<Longrightarrow> f t x = g t x"
    and step: "\<And>t x y t'. I t \<Longrightarrow> g t x = Inr (y, t') \<Longrightarrow> I t'"
    and "I t"
  shows "forEach f t xs = forEach g t xs"
  using \<open>I t\<close>
proof (induction xs arbitrary: t)
  case Nil
  then show ?case by simp
next
  case (Cons x xs)
  have fx: "f t x = g t x" using eq [OF Cons.prems] .
  show ?case
  proof (cases "g t x")
    case (Inl e)
    then show ?thesis using fx by simp
  next
    case (Inr p)
    obtain y t1 where p: "p = (y, t1)" by (cases p)
    have I1: "I t1" using step [OF Cons.prems, of x y t1] Inr p by simp
    have "forEach f t1 xs = forEach g t1 xs"
      using I1 by (rule Cons.IH)
    then show ?thesis using fx Inr p by simp
  qed
qed

lemma zeroPadding_zero:
  "ws = replicate n 0 \<Longrightarrow> 0 < n \<Longrightarrow> zeroPadding ws d = Inr ws"
  by (auto simp: zeroPadding_def Let_def intro!: nth_equalityI simp: nth_list_update)

lemma vectorFromBuf_zero:
  assumes "0 < d"
  shows "vectorFromBuf d (getWords d) = Inr \<lparr>dims = d, data = replicate (nat (numWords d)) 0\<rparr>"
proof -
  have n: "0 < nat (numWords d)" using numWords_gt0 [OF assms] by (simp only: zero_less_nat_eq)
  have "zeroPadding (getWords d) d = Inr (getWords d)"
    unfolding getWords_def by (rule zeroPadding_zero [OF refl n])
  then show ?thesis
    using n by (simp add: vectorFromBuf_def getWords_def)
qed

lemma bundlePooled_eq_Bundle:
  assumes ne: "vecs \<noteq> []" and same: "\<forall>v \<in> set vecs. dims v = Dims c" and pos: "0 < Dims c"
  shows "bundlePooled c vecs = Bundle vecs"
proof -
  have hd: "dims (hd vecs) = Dims c" using ne same by simp
  have rs: "requireSameDims vecs" using ne same hd by (simp add: requireSameDims_all)
  have p: "0 < dims (hd vecs)" using hd pos by simp
  have rs': "requireSameDims (\<lparr>dims = Dims c, data = replicate (nat (numWords (Dims c))) 0\<rparr> # vecs)"
    using same by (simp add: requireSameDims_def)
  have th: "goQuo (int (length vecs)) 2 = int (length vecs div 2)"
    by (simp add: goQuo_nonneg zdiv_int)
  show ?thesis
    unfolding Bundle_result [OF ne rs p] bundlePooled_def vectorFromBuf_zero [OF pos]
    using ne rs' by (simp add: bundleInto_def getCounts_def th hd Let_def)
qed

lemma Bundle_ok:
  assumes ne: "vecs \<noteq> []" and same: "\<forall>v \<in> set vecs. dims v = D" and pos: "0 < D"
  shows "\<exists>b. Bundle vecs = Inr b \<and> valid b \<and> dims b = D"
proof -
  have hd: "dims (hd vecs) = D" using ne same by simp
  have rs: "requireSameDims vecs" using ne same hd by (simp add: requireSameDims_all)
  have p: "0 < dims (hd vecs)" using hd pos by simp
  obtain b where b: "Bundle vecs = Inr b" using Bundle_result [OF ne rs p] by blast
  then show ?thesis using Bundle_returns_valid [OF b] hd by simp
qed

lemma valid_shape: "valid v \<Longrightarrow> shape (dims v) v"
  by (simp add: shape_def valid_len)

lemma permuteInto_eq:
  assumes s: "valid s" and d: "shape (dims s) dst"
  shows "\<exists>r. Permute s = Inr r \<and> permuteInto dst s = Inr r \<and> valid r \<and> dims r = dims s"
proof -
  obtain r where r: "Permute s = Inr r" "valid r" "dims r = dims s"
    using Permute_valid [OF s] by blast
  have l: "length (data r) = length (data dst)"
    using valid_len [OF r(2)] r(3) d by (simp add: shape_def)
  have "dst\<lparr>data := data r\<rparr> = r"
    using d r(3) by (simp add: shape_def)
  then show ?thesis
    using r l d by (simp add: permuteInto_def shape_def)
qed

lemma pingPong_eq:
  assumes "valid s" and "shape (dims s) dst"
  shows "\<exists>p dst'. PermuteN i s = Inr p \<and> pingPong i s dst = Inr (p, dst') \<and>
           valid p \<and> dims p = dims s \<and> shape (dims s) dst'"
  using assms
proof (induction i arbitrary: s dst)
  case 0
  then show ?case by simp
next
  case (Suc i)
  obtain r where r: "Permute s = Inr r" "permuteInto dst s = Inr r" "valid r" "dims r = dims s"
    using permuteInto_eq [OF Suc.prems] by blast
  have sh: "shape (dims r) s" using valid_shape [OF Suc.prems(1)] r(4) by simp
  obtain p dst' where p: "PermuteN i r = Inr p" "pingPong i r s = Inr (p, dst')"
    "valid p" "dims p = dims r" "shape (dims r) dst'"
    using Suc.IH [OF r(3) sh] by blast
  show ?case using r p by simp
qed

lemma bindInto_eq:
  assumes a: "valid a" and b: "valid b" and d: "dims b = dims a"
  shows "bindInto a a b = Bind a b"
proof -
  have la: "length (data a) = nat (numWords (dims a))" using a by (rule valid_len)
  have lb: "length (data b) = nat (numWords (dims a))" using valid_len [OF b] d by simp
  have "map (\<lambda>i. data a ! i XOR data b ! i) [0..<nat (numWords (dims a))]
          = map2 (XOR) (data a) (data b)"
    by (rule nth_equalityI) (simp_all add: la lb)
  then show ?thesis
    unfolding Bind_result [OF a b d] using d la lb by (simp add: bindInto_def)
qed

lemma copy_same_length: "length dst = length src \<Longrightarrow> copy dst src = src"
  by (simp add: copy_def)

lemma copy_into_shape:
  assumes "valid s" and "shape (dims s) x"
  shows "x\<lparr>data := copy (data x) (data s)\<rparr> = s"
proof -
  have "length (data x) = length (data s)"
    using assms valid_len [OF assms(1)] by (simp add: shape_def)
  then show ?thesis using assms(2) by (simp add: copy_same_length shape_def)
qed

lemma windowLoop_ok:
  assumes c: "0 < Dims c"
  shows "tabOK c t \<Longrightarrow> valid acc \<Longrightarrow> dims acc = Dims c \<Longrightarrow>
         \<exists>v t'. windowLoop lib t acc i rs = Inr (v, t') \<and> valid v \<and> dims v = Dims c \<and> tabOK c t'"
proof (induction rs arbitrary: t acc i)
  case Nil
  then show ?case by simp
next
  case (Cons r rs)
  obtain s t1 where s: "symbolTable_get lib t r = Inr (s, t1)" "valid s" "dims s = Dims c"
    "tabOK c t1"
    using get_ok [OF c Cons.prems(1)] by blast
  obtain p where p: "PermuteN i s = Inr p" "valid p" "dims p = dims s"
    using PermuteN_valid [OF s(2), of i] by blast
  have d: "dims p = dims acc" using p(3) s(3) Cons.prems(3) by simp
  obtain acc' where a: "Bind acc p = Inr acc'"
    using Bind_result [OF Cons.prems(2) p(2) d] by blast
  have va: "valid acc'" "dims acc' = Dims c"
    using Bind_valid [OF Cons.prems(2) p(2) a] Cons.prems(3) by simp_all
  show ?case
    using Cons.IH [OF s(4) va, of "Suc i"] s(1) p(1) a by simp
qed

lemma windowIntoLoop_eq:
  assumes c: "0 < Dims c"
  shows "tabOK c t \<Longrightarrow> valid acc \<Longrightarrow> dims acc = Dims c \<Longrightarrow> shape (Dims c) pS \<Longrightarrow>
         shape (Dims c) pD \<Longrightarrow>
         windowIntoLoop lib t acc pS pD i rs = windowLoop lib t acc i rs"
proof (induction rs arbitrary: t acc pS pD i)
  case Nil
  then show ?case by simp
next
  case (Cons r rs)
  obtain s t1 where s: "symbolTable_get lib t r = Inr (s, t1)" "valid s" "dims s = Dims c"
    "tabOK c t1"
    using get_ok [OF c Cons.prems(1)] by blast
  have cp: "pS\<lparr>data := copy (data pS) (data s)\<rparr> = s"
    using copy_into_shape [OF s(2)] Cons.prems(4) s(3) by simp
  have shD: "shape (dims s) pD" using Cons.prems(5) s(3) by simp
  obtain p pD' where p: "PermuteN i s = Inr p" "pingPong i s pD = Inr (p, pD')"
    "valid p" "dims p = dims s" "shape (dims s) pD'"
    using pingPong_eq [OF s(2) shD] by blast
  have d: "dims p = dims acc" using p(4) s(3) Cons.prems(3) by simp
  have be: "bindInto acc acc p = Bind acc p"
    using bindInto_eq [OF Cons.prems(2) p(3) d] .
  obtain acc' where a: "Bind acc p = Inr acc'"
    using Bind_result [OF Cons.prems(2) p(3) d] by blast
  have va: "valid acc'" "dims acc' = Dims c"
    using Bind_valid [OF Cons.prems(2) p(3) a] Cons.prems(3) by simp_all
  have shp: "shape (Dims c) p" using valid_shape [OF p(3)] p(4) s(3) by simp
  have shD': "shape (Dims c) pD'" using p(5) s(3) by simp
  have "windowIntoLoop lib t1 acc' p pD' (Suc i) rs = windowLoop lib t1 acc' (Suc i) rs"
    using Cons.IH [OF s(4) va shp shD'] .
  then show ?case
    using s(1) cp p(1,2) be a by simp
qed

lemma encodeWindow_ok:
  assumes c: "0 < Dims c" and t: "tabOK c t" and ne: "runes \<noteq> []"
  shows "\<exists>v t'. encodeWindow lib t runes = Inr (v, t') \<and> valid v \<and> dims v = Dims c \<and> tabOK c t'"
proof -
  obtain r0 rest where r: "runes = r0 # rest" using ne by (cases runes) auto
  obtain s t1 where s: "symbolTable_get lib t r0 = Inr (s, t1)" "valid s" "dims s = Dims c"
    "tabOK c t1"
    using get_ok [OF c t] by blast
  show ?thesis
    using windowLoop_ok [OF c s(4) s(2) s(3), of lib 1 rest] s(1) r
    by (simp add: encodeWindow_def)
qed

lemma encodeWindowInto_eq:
  assumes c: "0 < Dims c" and t: "tabOK c t"
  shows "encodeWindowInto lib c t \<lparr>dims = Dims c, data = replicate (nat (numWords (Dims c))) 0\<rparr>
           runes = encodeWindow lib t runes"
proof (cases runes)
  case Nil
  then show ?thesis by (simp add: encodeWindowInto_def encodeWindow_def)
next
  case (Cons r0 rest)
  let ?z = "\<lparr>dims = Dims c, data = replicate (nat (numWords (Dims c))) 0\<rparr>"
  obtain s t1 where s: "symbolTable_get lib t r0 = Inr (s, t1)" "valid s" "dims s = Dims c"
    "tabOK c t1"
    using get_ok [OF c t] by blast
  have shz: "shape (dims s) ?z" using s(3) by (simp add: shape_def)
  have cp: "?z\<lparr>data := copy (data ?z) (data s)\<rparr> = s"
    using copy_into_shape [OF s(2) shz] .
  have shZ: "shape (Dims c) ?z" by (simp add: shape_def)
  show ?thesis
  proof (cases rest)
    case Nil
    then show ?thesis
      using Cons s(1) cp by (simp add: encodeWindowInto_def encodeWindow_def)
  next
    case (Cons r1 rest')
    have "windowIntoLoop lib t1 s ?z ?z 1 rest = windowLoop lib t1 s 1 rest"
      using windowIntoLoop_eq [OF c s(4) s(2) s(3) shZ shZ] .
    then show ?thesis
      using \<open>runes = r0 # rest\<close> Cons s(1) cp
      by (simp add: encodeWindowInto_def encodeWindow_def vectorFromBuf_zero [OF c])
  qed
qed

lemma slice_window:
  assumes n: "0 < n" and i: "int i + n \<le> int (length runes)"
  shows "\<exists>w. slice runes (int i) (int i + n) = Inr w \<and> w \<noteq> []"
proof -
  have "i < length runes" using n i by linarith
  then have "take (nat n) (drop i runes) \<noteq> []" using n by simp
  then show ?thesis using n i by (simp add: slice_def)
qed

lemma encodeWindow_tab:
  assumes c: "0 < Dims c" and t: "tabOK c t" and r: "encodeWindow lib t w = Inr (y, t')"
  shows "tabOK c t'"
proof (cases "w = []")
  case True
  then show ?thesis using r by (simp add: encodeWindow_def)
next
  case False
  then show ?thesis using encodeWindow_ok [OF c t False, of lib] r by auto
qed

lemma list_all_dims: "list_all (okVec c) vs \<Longrightarrow> \<forall>v \<in> set vs. dims v = Dims c"
  by (auto simp: list_all_iff okVec_def)

lemma encodeRunes_ok:
  assumes c: "cfgOK c" and t: "tabOK c t"
  shows "\<exists>v t'. encodeRunes lib c t runes = Inr (v, t') \<and> okVec c v \<and> tabOK c t'"
proof -
  have d: "0 < Dims c" and n: "0 < NGramSize c" using c by (simp_all add: cfgOK_def)
  show ?thesis
  proof (cases "int (length runes) < NGramSize c")
    case True
    have "\<exists>ys t'. forEach (symbolTable_get lib) t runes = Inr (ys, t') \<and> list_all (okVec c) ys \<and>
            length ys = length runes \<and> tabOK c t'"
    proof (rule forEach_ok)
      show "\<exists>y t'. symbolTable_get lib t x = Inr (y, t') \<and> okVec c y \<and> tabOK c t'"
        if "tabOK c t" for t x
        using get_ok [OF d that, of lib x] by (simp add: okVec_def)
      show "tabOK c t" by fact
    qed
    then obtain vecs t1 where f: "forEach (symbolTable_get lib) t runes = Inr (vecs, t1)"
      "list_all (okVec c) vecs" "tabOK c t1"
      by blast
    show ?thesis
    proof (cases "vecs = []")
      case True
      have "okVec c \<lparr>dims = Dims c, data = replicate (nat (numWords (Dims c))) 0\<rparr>"
        using New_valid [of "Dims c"] d by (simp add: okVec_def New_pos)
      then show ?thesis
        using \<open>int (length runes) < NGramSize c\<close> f True d
        by (simp add: encodeRunes_def New_pos)
    next
      case False
      obtain b where b: "Bundle vecs = Inr b" "valid b" "dims b = Dims c"
        using Bundle_ok [OF False list_all_dims [OF f(2)] d] by blast
      then show ?thesis
        using \<open>int (length runes) < NGramSize c\<close> f False
        by (simp add: encodeRunes_def okVec_def)
    qed
  next
    case False
    let ?count = "int (length runes) - NGramSize c + 1"
    let ?g = "\<lambda>t i. case slice runes (int i) (int i + NGramSize c) of
                       Inl e \<Rightarrow> Inl e | Inr w \<Rightarrow> encodeWindow lib t w"
    have cnt: "0 < nat ?count" using False by simp
    have "\<exists>ys t'. forEach ?g t [0..<nat ?count] = Inr (ys, t') \<and> list_all (okVec c) ys \<and>
            length ys = length [0..<nat ?count] \<and> tabOK c t'"
    proof (rule forEach_ok)
      show "\<exists>y t'. ?g t i = Inr (y, t') \<and> okVec c y \<and> tabOK c t'"
        if "tabOK c t" and "i \<in> set [0..<nat ?count]" for t i
      proof -
        have "int i + NGramSize c \<le> int (length runes)" using that(2) by auto
        then obtain w where w: "slice runes (int i) (int i + NGramSize c) = Inr w" "w \<noteq> []"
          using slice_window [OF n] by blast
        show ?thesis
          using encodeWindow_ok [OF d that(1) w(2), of lib] w(1) by (simp add: okVec_def)
      qed
      show "tabOK c t" by fact
    qed
    then obtain vecs t1 where f: "forEach ?g t [0..<nat ?count] = Inr (vecs, t1)"
      "list_all (okVec c) vecs" "length vecs = nat ?count" "tabOK c t1"
      by auto
    have ne: "vecs \<noteq> []" using f(3) cnt by auto
    obtain b where b: "Bundle vecs = Inr b" "valid b" "dims b = Dims c"
      using Bundle_ok [OF ne list_all_dims [OF f(2)] d] by blast
    then show ?thesis
      using False f by (simp add: encodeRunes_def okVec_def Let_def)
  qed
qed

lemma encodeRunes_pooled_eq:
  assumes c: "cfgOK c" and t: "tabOK c t"
  shows "encodeRunes_pooled lib c t runes = encodeRunes lib c t runes"
proof -
  have d: "0 < Dims c" and n: "0 < NGramSize c" using c by (simp_all add: cfgOK_def)
  show ?thesis
  proof (cases "int (length runes) < NGramSize c")
    case True
    have "\<exists>ys t'. forEach (symbolTable_get lib) t runes = Inr (ys, t') \<and> list_all (okVec c) ys \<and>
            length ys = length runes \<and> tabOK c t'"
    proof (rule forEach_ok)
      show "\<exists>y t'. symbolTable_get lib t x = Inr (y, t') \<and> okVec c y \<and> tabOK c t'"
        if "tabOK c t" for t x
        using get_ok [OF d that, of lib x] by (simp add: okVec_def)
      show "tabOK c t" by fact
    qed
    then obtain vecs t1 where f: "forEach (symbolTable_get lib) t runes = Inr (vecs, t1)"
      "list_all (okVec c) vecs"
      by blast
    have "bundlePooled c vecs = Bundle vecs" if "vecs \<noteq> []"
      using bundlePooled_eq_Bundle [OF that list_all_dims [OF f(2)] d] .
    then show ?thesis
      using True f(1) by (simp add: encodeRunes_pooled_def encodeRunes_def)
  next
    case False
    let ?count = "int (length runes) - NGramSize c + 1"
    let ?g = "\<lambda>t i. case slice runes (int i) (int i + NGramSize c) of
                       Inl e \<Rightarrow> Inl e | Inr w \<Rightarrow> encodeWindow lib t w"
    let ?f = "\<lambda>t i. case vectorFromBuf (Dims c) (getWords (Dims c)) of
                       Inl e \<Rightarrow> Inl e
                     | Inr dst \<Rightarrow>
                         (case slice runes (int i) (int i + NGramSize c) of
                            Inl e \<Rightarrow> Inl e
                          | Inr w \<Rightarrow> encodeWindowInto lib c t dst w)"
    have fe: "forEach ?f t [0..<nat ?count] = forEach ?g t [0..<nat ?count]"
    proof (rule forEach_cong [where I = "tabOK c"])
      show "?f t i = ?g t i" if "tabOK c t" for t i
        using encodeWindowInto_eq [OF d that]
        by (simp add: vectorFromBuf_zero [OF d] split: sum.splits)
      show "tabOK c t'" if "tabOK c t" and "?g t i = Inr (y, t')" for t i y t'
        using that encodeWindow_tab [OF d that(1)] by (auto split: sum.splits)
      show "tabOK c t" by fact
    qed
    have cnt: "0 < nat ?count" using False by simp
    obtain v t1 where ok: "encodeRunes lib c t runes = Inr (v, t1)"
      using encodeRunes_ok [OF c t] by blast
    then obtain vecs where f: "forEach ?g t [0..<nat ?count] = Inr (vecs, t1)"
      "Bundle vecs = Inr v"
      using False by (auto simp: encodeRunes_def Let_def split: sum.splits)
    have ne: "vecs \<noteq> []" using f(2) by (auto simp: Bundle_def)
    have "\<exists>ys t'. forEach ?g t [0..<nat ?count] = Inr (ys, t') \<and> list_all (okVec c) ys \<and>
            length ys = length [0..<nat ?count] \<and> tabOK c t'"
    proof (rule forEach_ok)
      show "\<exists>y t'. ?g t i = Inr (y, t') \<and> okVec c y \<and> tabOK c t'"
        if "tabOK c t" and "i \<in> set [0..<nat ?count]" for t i
      proof -
        have "int i + NGramSize c \<le> int (length runes)" using that(2) by auto
        then obtain w where w: "slice runes (int i) (int i + NGramSize c) = Inr w" "w \<noteq> []"
          using slice_window [OF n] by blast
        show ?thesis
          using encodeWindow_ok [OF d that(1) w(2), of lib] w(1) by (simp add: okVec_def)
      qed
      show "tabOK c t" by fact
    qed
    then have all: "list_all (okVec c) vecs" using f(1) by auto
    have "bundlePooled c vecs = Bundle vecs"
      using bundlePooled_eq_Bundle [OF ne list_all_dims [OF all] d] .
    then show ?thesis
      using False fe f by (simp add: encodeRunes_pooled_def encodeRunes_def Let_def)
  qed
qed

lemma chunkLoop_done:
  "\<not> start < int (length runes) \<Longrightarrow> chunkLoop f c runes start vecs t = Some (Inr (vecs, t))"
  by (subst chunkLoop.simps) (simp add: Let_def)

lemma chunkLoop_step:
  assumes "2 \<le> ChunkSize c" and "0 \<le> start" and "start < int (length runes)"
    and E: "E = min (start + ChunkSize c) (int (length runes))"
    and C: "C = take (nat (E - start)) (drop (nat start) runes)"
    and R: "R = (if int (length C) \<ge> NGramSize c \<or> length vecs = 0
                 then (case f t C of
                         Inl e \<Rightarrow> Inl e
                       | Inr (v, t') \<Rightarrow> Inr (vecs @ [v], t'))
                 else Inr (vecs, t))"
  shows "chunkLoop f c runes start vecs t =
     (case R of
        Inl e \<Rightarrow> Some (Inl e)
      | Inr (vecs', t') \<Rightarrow>
          if E = int (length runes) then Some (Inr (vecs', t'))
          else chunkLoop f c runes (start + ChunkSize c div 2) vecs' t')"
proof -
  have q: "goQuo (ChunkSize c) 2 = ChunkSize c div 2"
    using assms(1) by (simp add: goQuo_nonneg)
  have m: "(if start + ChunkSize c > int (length runes) then int (length runes)
            else start + ChunkSize c) = E"
    by (simp add: min_def E)
  have s: "slice runes start E = Inr C"
    using assms(1,2,3) by (simp add: slice_def E C)
  show ?thesis
    apply (subst chunkLoop.simps)
    apply (simp only: Let_def q m s assms(3) if_True sum.case R)
    done
qed

lemma chunkLoop_ok:
  assumes c: "cfgOK c"
    and f: "\<And>t rs. tabOK c t \<Longrightarrow> \<exists>v t'. f t rs = Inr (v, t') \<and> okVec c v \<and> tabOK c t'"
  shows "tabOK c t \<Longrightarrow> list_all (okVec c) vecs \<Longrightarrow> 0 \<le> start \<Longrightarrow>
         \<exists>vecs' t'. chunkLoop f c runes start vecs t = Some (Inr (vecs', t')) \<and>
            list_all (okVec c) vecs' \<and> tabOK c t' \<and>
            (vecs \<noteq> [] \<or> start < int (length runes) \<longrightarrow> vecs' \<noteq> [])"
proof (induction "nat (int (length runes) - start)" arbitrary: start vecs t rule: less_induct)
  case less
  have cs: "2 \<le> ChunkSize c" using c by (simp add: cfgOK_def)
  show ?case
  proof (cases "start < int (length runes)")
    case False
    then show ?thesis using less.prems by (simp add: chunkLoop_done)
  next
    case True
    define E where "E = min (start + ChunkSize c) (int (length runes))"
    define C where "C = take (nat (E - start)) (drop (nat start) runes)"
    define R where "R = (if int (length C) \<ge> NGramSize c \<or> length vecs = 0
                 then (case f t C of
                         Inl e \<Rightarrow> Inl e
                       | Inr (v, t') \<Rightarrow> Inr (vecs @ [v], t'))
                 else Inr (vecs, t))"
    let ?s = "start + ChunkSize c div 2"
    have S: "chunkLoop f c runes start vecs t =
       (case R of
          Inl e \<Rightarrow> Some (Inl e)
        | Inr (vecs', t') \<Rightarrow>
            if E = int (length runes) then Some (Inr (vecs', t'))
            else chunkLoop f c runes ?s vecs' t')"
      by (rule chunkLoop_step [where f = f and t = t and vecs = vecs,
            OF cs less.prems(3) True E_def C_def R_def])
    obtain v t1 where v: "f t C = Inr (v, t1)" "okVec c v" "tabOK c t1"
      using f [OF less.prems(1)] by blast
    obtain vecs1 t2 where r: "R = Inr (vecs1, t2)" "list_all (okVec c) vecs1" "tabOK c t2"
      "vecs1 \<noteq> []"
      using v less.prems(1,2)
      by (cases "int (length C) \<ge> NGramSize c \<or> length vecs = 0") (auto simp: R_def)
    show ?thesis
    proof (cases "E = int (length runes)")
      case True
      have "chunkLoop f c runes start vecs t = Some (Inr (vecs1, t2))"
        unfolding S r(1) using True by simp
      then show ?thesis using r by blast
    next
      case False
      have st: "0 < ChunkSize c div 2" using cs by simp
      have m: "nat (int (length runes) - ?s) < nat (int (length runes) - start)"
        using st \<open>start < int (length runes)\<close> by simp
      have s0: "0 \<le> ?s" using st less.prems(3) by simp
      obtain vecs' t' where rec: "chunkLoop f c runes ?s vecs1 t2 = Some (Inr (vecs', t'))"
        "list_all (okVec c) vecs'" "tabOK c t'"
        "vecs1 \<noteq> [] \<or> ?s < int (length runes) \<longrightarrow> vecs' \<noteq> []"
        using less.hyps [OF m r(3) r(2) s0] by blast
      have "chunkLoop f c runes start vecs t = Some (Inr (vecs', t'))"
        unfolding S r(1) using False rec(1) by simp
      then show ?thesis using rec r(4) by blast
    qed
  qed
qed

lemma chunkLoop_cong:
  assumes c: "cfgOK c"
    and g: "\<And>t rs. tabOK c t \<Longrightarrow> \<exists>v t'. g t rs = Inr (v, t') \<and> okVec c v \<and> tabOK c t'"
    and eq: "\<And>t rs. tabOK c t \<Longrightarrow> f t rs = g t rs"
  shows "tabOK c t \<Longrightarrow> 0 \<le> start \<Longrightarrow>
         chunkLoop f c runes start vecs t = chunkLoop g c runes start vecs t"
proof (induction "nat (int (length runes) - start)" arbitrary: start vecs t rule: less_induct)
  case less
  have cs: "2 \<le> ChunkSize c" using c by (simp add: cfgOK_def)
  show ?case
  proof (cases "start < int (length runes)")
    case False
    then show ?thesis by (simp add: chunkLoop_done)
  next
    case True
    define E where "E = min (start + ChunkSize c) (int (length runes))"
    define C where "C = take (nat (E - start)) (drop (nat start) runes)"
    define R where "R = (if int (length C) \<ge> NGramSize c \<or> length vecs = 0
                 then (case g t C of
                         Inl e \<Rightarrow> Inl e
                       | Inr (v, t') \<Rightarrow> Inr (vecs @ [v], t'))
                 else Inr (vecs, t))"
    let ?s = "start + ChunkSize c div 2"
    have fg: "f t C = g t C" using eq [OF less.prems(1)] .
    have Rf: "R = (if int (length C) \<ge> NGramSize c \<or> length vecs = 0
                 then (case f t C of
                         Inl e \<Rightarrow> Inl e
                       | Inr (v, t') \<Rightarrow> Inr (vecs @ [v], t'))
                 else Inr (vecs, t))"
      unfolding R_def fg ..
    have Sg: "chunkLoop g c runes start vecs t =
       (case R of
          Inl e \<Rightarrow> Some (Inl e)
        | Inr (vecs', t') \<Rightarrow>
            if E = int (length runes) then Some (Inr (vecs', t'))
            else chunkLoop g c runes ?s vecs' t')"
      by (rule chunkLoop_step [where f = g and t = t and vecs = vecs,
            OF cs less.prems(2) True E_def C_def R_def])
    have Sf: "chunkLoop f c runes start vecs t =
       (case R of
          Inl e \<Rightarrow> Some (Inl e)
        | Inr (vecs', t') \<Rightarrow>
            if E = int (length runes) then Some (Inr (vecs', t'))
            else chunkLoop f c runes ?s vecs' t')"
      by (rule chunkLoop_step [where f = f and t = t and vecs = vecs,
            OF cs less.prems(2) True E_def C_def Rf])
    obtain v t1 where v: "g t C = Inr (v, t1)" "okVec c v" "tabOK c t1"
      using g [OF less.prems(1)] by blast
    obtain vecs1 t2 where r: "R = Inr (vecs1, t2)" "tabOK c t2"
      using v less.prems(1)
      by (cases "int (length C) \<ge> NGramSize c \<or> length vecs = 0") (auto simp: R_def)
    have st: "0 < ChunkSize c div 2" using cs by simp
    have m: "nat (int (length runes) - ?s) < nat (int (length runes) - start)"
      using st True by simp
    have s0: "0 \<le> ?s" using st less.prems(2) by simp
    have rec: "chunkLoop f c runes ?s vecs1 t2 = chunkLoop g c runes ?s vecs1 t2"
      using less.hyps [OF m r(2) s0] .
    show ?thesis
      unfolding Sf Sg r(1) using rec by simp
  qed
qed

lemma New_okVec:
  "0 < Dims c \<Longrightarrow> \<exists>z. New (Dims c) = Inr z \<and> okVec c z"
  using New_valid [of "Dims c"] by (simp add: New_pos okVec_def)

lemma bundle_list_ok:
  assumes d: "0 < Dims c" and all: "list_all (okVec c) vecs" and ne: "vecs \<noteq> []"
  shows "\<exists>b. Bundle vecs = Inr b \<and> okVec c b"
  using Bundle_ok [OF ne list_all_dims [OF all] d] by (auto simp: okVec_def)

lemma bundle_or_first:
  assumes d: "0 < Dims c" and all: "list_all (okVec c) vecs" and ne: "vecs \<noteq> []"
  shows "(if length vecs = 1 then Inr (vecs ! 0) else bundlePooled c vecs) = Bundle vecs"
proof (cases "length vecs = 1")
  case True
  then obtain v where v: "vecs = [v]" by (cases vecs) auto
  then have "valid v" using all by (simp add: okVec_def)
  then show ?thesis using v Bundle_single by simp
next
  case False
  then show ?thesis
    using bundlePooled_eq_Bundle [OF ne list_all_dims [OF all] d] by simp
qed

lemma encodeChunked_ok:
  assumes c: "cfgOK c" and t: "tabOK c t"
  shows "\<exists>v t'. encodeChunked lib c t runes = Some (Inr (v, t')) \<and> okVec c v \<and> tabOK c t'"
proof -
  have d: "0 < Dims c" using c by (simp add: cfgOK_def)
  obtain vecs t1 where l: "chunkLoop (encodeRunes lib c) c runes 0 [] t = Some (Inr (vecs, t1))"
    "list_all (okVec c) vecs" "tabOK c t1"
    using chunkLoop_ok [where f = "encodeRunes lib c" and t = t and vecs = "[]" and start = 0
        and runes = runes, OF c encodeRunes_ok [OF c] t]
    by auto
  show ?thesis
  proof (cases "vecs = []")
    case True
    then show ?thesis
      using l New_okVec [OF d] by (auto simp: encodeChunked_def)
  next
    case False
    then show ?thesis
      using l bundle_list_ok [OF d l(2) False] by (auto simp: encodeChunked_def)
  qed
qed

lemma encodeChunked_pooled_eq:
  assumes c: "cfgOK c" and t: "tabOK c t"
  shows "encodeChunked_pooled lib c t runes = encodeChunked lib c t runes"
proof -
  have d: "0 < Dims c" using c by (simp add: cfgOK_def)
  have eq: "chunkLoop (encodeRunes_pooled lib c) c runes 0 [] t
              = chunkLoop (encodeRunes lib c) c runes 0 [] t"
    using chunkLoop_cong [where f = "encodeRunes_pooled lib c" and g = "encodeRunes lib c"
        and t = t and start = 0 and runes = runes and vecs = "[]",
        OF c encodeRunes_ok [OF c] encodeRunes_pooled_eq [OF c] t]
    by simp
  obtain vecs t1 where l: "chunkLoop (encodeRunes lib c) c runes 0 [] t = Some (Inr (vecs, t1))"
    "list_all (okVec c) vecs" "tabOK c t1"
    using chunkLoop_ok [where f = "encodeRunes lib c" and t = t and vecs = "[]" and start = 0
        and runes = runes, OF c encodeRunes_ok [OF c] t]
    by auto
  show ?thesis
  proof (cases "vecs = []")
    case True
    then show ?thesis by (simp add: encodeChunked_pooled_def encodeChunked_def eq l)
  next
    case False
    have b: "(if length vecs = 1 then Inr (vecs ! 0) else bundlePooled c vecs) = Bundle vecs"
      using bundle_or_first [OF d l(2) False] .
    show ?thesis
    proof (cases "length vecs = 1")
      case True
      then have "Bundle vecs = Inr (vecs ! 0)" using b by simp
      then show ?thesis
        using False True by (simp add: encodeChunked_pooled_def encodeChunked_def eq l)
    next
      case F: False
      then show ?thesis
        using False b by (simp add: encodeChunked_pooled_def encodeChunked_def eq l)
    qed
  qed
qed

lemma sentenceLoop_ok:
  assumes long: "\<And>t rs. tabOK c t \<Longrightarrow>
                   \<exists>v t'. encLong t rs = Some (Inr (v, t')) \<and> okVec c v \<and> tabOK c t'"
    and short: "\<And>t rs. tabOK c t \<Longrightarrow>
                   \<exists>v t'. encShort t rs = Inr (v, t') \<and> okVec c v \<and> tabOK c t'"
  shows "tabOK c t \<Longrightarrow> list_all (okVec c) vecs \<Longrightarrow>
         \<exists>vecs' t'. sentenceLoop encLong encShort lib c ss vecs t = Some (Inr (vecs', t')) \<and>
            list_all (okVec c) vecs' \<and> tabOK c t'"
proof (induction ss arbitrary: vecs t)
  case Nil
  then show ?case by simp
next
  case (Cons s ss)
  define runes where "runes = normalizeSegment lib s (StripPunctuation c)"
  show ?case
  proof (cases "runes = []")
    case True
    then show ?thesis
      using Cons.IH [OF Cons.prems] by (simp add: runes_def [symmetric])
  next
    case False
    obtain v t1 where v:
      "(if int (length runes) > LongTextThresh c then encLong t runes
        else Some (encShort t runes)) = Some (Inr (v, t1))" "okVec c v" "tabOK c t1"
      using long [OF Cons.prems(1), of runes] short [OF Cons.prems(1), of runes]
      by (cases "int (length runes) > LongTextThresh c") auto
    have "list_all (okVec c) (vecs @ [v])" using Cons.prems(2) v(2) by simp
    then show ?thesis
      using Cons.IH [OF v(3), of "vecs @ [v]"] False v(1)
      by (simp add: runes_def [symmetric])
  qed
qed

lemma sentenceLoop_cong:
  assumes long: "\<And>t rs. tabOK c t \<Longrightarrow>
                   \<exists>v t'. g1 t rs = Some (Inr (v, t')) \<and> okVec c v \<and> tabOK c t'"
    and short: "\<And>t rs. tabOK c t \<Longrightarrow>
                   \<exists>v t'. g2 t rs = Inr (v, t') \<and> okVec c v \<and> tabOK c t'"
    and eq1: "\<And>t rs. tabOK c t \<Longrightarrow> f1 t rs = g1 t rs"
    and eq2: "\<And>t rs. tabOK c t \<Longrightarrow> f2 t rs = g2 t rs"
  shows "tabOK c t \<Longrightarrow>
         sentenceLoop f1 f2 lib c ss vecs t = sentenceLoop g1 g2 lib c ss vecs t"
proof (induction ss arbitrary: vecs t)
  case Nil
  then show ?case by simp
next
  case (Cons s ss)
  define runes where "runes = normalizeSegment lib s (StripPunctuation c)"
  show ?case
  proof (cases "runes = []")
    case True
    then show ?thesis
      using Cons.IH [OF Cons.prems] by (simp add: runes_def [symmetric])
  next
    case False
    obtain v t1 where v:
      "(if int (length runes) > LongTextThresh c then g1 t runes
        else Some (g2 t runes)) = Some (Inr (v, t1))" "tabOK c t1"
      using long [OF Cons.prems(1), of runes] short [OF Cons.prems(1), of runes]
      by (cases "int (length runes) > LongTextThresh c") auto
    have e: "(if int (length runes) > LongTextThresh c then f1 t runes
        else Some (f2 t runes)) = Some (Inr (v, t1))"
      using v(1) eq1 [OF Cons.prems(1), of runes] eq2 [OF Cons.prems(1), of runes]
      by (cases "int (length runes) > LongTextThresh c") simp_all
    show ?thesis
      using Cons.IH [OF v(2), of "vecs @ [v]"] False v(1) e
      by (simp add: runes_def [symmetric])
  qed
qed

lemma Encode_ok:
  assumes e: "encOK e"
  shows "\<exists>v e'. Encode lib e text = Some (Inr (v, e')) \<and> okVec (cfg e) v \<and> encOK e' \<and>
           cfg e' = cfg e"
proof -
  let ?c = "cfg e"
  have c: "cfgOK ?c" and t: "tabOK ?c (sym e)" using e by (simp_all add: encOK_def)
  have d: "0 < Dims ?c" using c by (simp add: cfgOK_def)
  show ?thesis
  proof (cases "text = []")
    case True
    then show ?thesis using New_okVec [OF d] e by (auto simp: Encode_def)
  next
    case False
    obtain vecs t1 where l:
      "sentenceLoop (encodeChunked lib ?c) (encodeRunes lib ?c) lib ?c
         (splitSentences lib (ToLower lib text)) [] (sym e) = Some (Inr (vecs, t1))"
      "list_all (okVec ?c) vecs" "tabOK ?c t1"
      using sentenceLoop_ok [where encLong = "encodeChunked lib ?c"
          and encShort = "encodeRunes lib ?c" and c = ?c and t = "sym e" and vecs = "[]"
          and lib = lib and ss = "splitSentences lib (ToLower lib text)",
          OF encodeChunked_ok [OF c] encodeRunes_ok [OF c] t]
      by auto
    have e': "encOK (e\<lparr>sym := t1\<rparr>)" using c l(3) by (simp add: encOK_def)
    show ?thesis
    proof (cases "vecs = []")
      case True
      then show ?thesis
        using False l(1) e' New_okVec [OF d] by (auto simp: Encode_def)
    next
      case F: False
      then show ?thesis
        using False l(1) e' bundle_list_ok [OF d l(2) F] by (auto simp: Encode_def)
    qed
  qed
qed

lemma Encode_pooled_eq:
  assumes e: "encOK e"
  shows "Encode_pooled lib e text = Encode lib e text"
proof -
  let ?c = "cfg e"
  have c: "cfgOK ?c" and t: "tabOK ?c (sym e)" using e by (simp_all add: encOK_def)
  have d: "0 < Dims ?c" using c by (simp add: cfgOK_def)
  show ?thesis
  proof (cases "text = []")
    case True
    then show ?thesis by (simp add: Encode_pooled_def Encode_def)
  next
    case False
    have eq: "sentenceLoop (encodeChunked_pooled lib ?c) (encodeRunes_pooled lib ?c) lib ?c
                (splitSentences lib (ToLower lib text)) [] (sym e)
            = sentenceLoop (encodeChunked lib ?c) (encodeRunes lib ?c) lib ?c
                (splitSentences lib (ToLower lib text)) [] (sym e)"
      by (rule sentenceLoop_cong [OF encodeChunked_ok [OF c] encodeRunes_ok [OF c]
            encodeChunked_pooled_eq [OF c] encodeRunes_pooled_eq [OF c] t])
    obtain vecs t1 where l:
      "sentenceLoop (encodeChunked lib ?c) (encodeRunes lib ?c) lib ?c
         (splitSentences lib (ToLower lib text)) [] (sym e) = Some (Inr (vecs, t1))"
      "list_all (okVec ?c) vecs" "tabOK ?c t1"
      using sentenceLoop_ok [where encLong = "encodeChunked lib ?c"
          and encShort = "encodeRunes lib ?c" and c = ?c and t = "sym e" and vecs = "[]"
          and lib = lib and ss = "splitSentences lib (ToLower lib text)",
          OF encodeChunked_ok [OF c] encodeRunes_ok [OF c] t]
      by auto
    show ?thesis
    proof (cases "vecs = []")
      case True
      then show ?thesis using False by (simp add: Encode_pooled_def Encode_def eq l)
    next
      case F: False
      have b: "(if length vecs = 1 then Inr (vecs ! 0) else bundlePooled ?c vecs) = Bundle vecs"
        using bundle_or_first [OF d l(2) F] .
      show ?thesis
      proof (cases "length vecs = 1")
        case True
        then have "Bundle vecs = Inr (vecs ! 0)" using b by simp
        then show ?thesis
          using False F True by (simp add: Encode_pooled_def Encode_def eq l)
      next
        case L: False
        then show ?thesis
          using False F b by (simp add: Encode_pooled_def Encode_def eq l)
      qed
    qed
  qed
qed

lemma NewNGramEncoder_encOK: "NewNGramEncoder c = Inr e \<Longrightarrow> encOK e"
  by (auto simp: NewNGramEncoder_def encOK_def cfgOK_def tabOK_def split: if_splits)

lemma Encode_returns_valid:
  assumes "Encode lib e text = Some (Inr (v, e'))"
  shows "valid v"
proof (cases "text = []")
  case True
  then show ?thesis
    using assms New_valid [of "Dims (cfg e)" v] by (auto simp: Encode_def split: sum.splits)
next
  case False
  then have "New (Dims (cfg e)) = Inr v \<or> (\<exists>vecs. Bundle vecs = Inr v)"
    using assms by (auto simp: Encode_def split: option.splits sum.splits if_splits)
  then show ?thesis
    using New_valid [of "Dims (cfg e)" v] Bundle_returns_valid [of _ v] by blast
qed

text \<open>
  Claim C5. An encoder that \<open>NewNGramEncoder\<close> returns satisfies \<open>encOK\<close>, and so does
  every encoder state that \<open>Encode\<close> leaves behind. On such an encoder and every text,
  the pooled revision (\<open>bundlePooled\<close>, \<open>encodeWindowInto\<close>, ping-pong scratch buffers)
  returns what the pure-functional revision (\<open>Bundle\<close>, \<open>Bind\<close>, \<open>Permute\<close>) returns: the
  same vector and the same symbol table; and both do return.
\<close>

theorem pooled_encode_equals_pure:
  "(NewNGramEncoder c = Inr e \<longrightarrow> encOK e) \<and>
   (encOK e \<longrightarrow>
      Encode_pooled lib e text = Encode lib e text \<and>
      (\<exists>v e'. Encode lib e text = Some (Inr (v, e')) \<and> valid v \<and> dims v = Dims (cfg e) \<and>
               encOK e'))"
proof (intro conjI impI)
  show "encOK e" if "NewNGramEncoder c = Inr e"
    using that by (rule NewNGramEncoder_encOK)
  show "Encode_pooled lib e text = Encode lib e text" if "encOK e"
    using that by (rule Encode_pooled_eq)
  show "\<exists>v e'. Encode lib e text = Some (Inr (v, e')) \<and> valid v \<and> dims v = Dims (cfg e) \<and>
               encOK e'" if "encOK e"
    using Encode_ok [OF that, of lib "text"] unfolding okVec_def by blast
qed

lemma enc0_new: "NewNGramEncoder cfg0 = Inr enc0"
  by (simp add: NewNGramEncoder_def cfg0_def enc0_def)

theorem pooled_encode_equals_pure_witness:
  "NewNGramEncoder cfg0 = Inr enc0 \<and> encOK enc0 \<and>
   Encode_pooled testlib enc0 [97, 98, 99, 100, 101] = Encode testlib enc0 [97, 98, 99, 100, 101] \<and>
   map_option (map_sum id fst) (Encode testlib enc0 [97, 98, 99, 100, 101])
     = Some (Inr \<lparr>dims = 65, data = [148319109732, 1]\<rparr>)"
proof -
  have v: "map_option (map_sum id fst) (Encode testlib enc0 [97, 98, 99, 100, 101])
     = Some (Inr \<lparr>dims = 65, data = [148319109732, 1]\<rparr>)"
    by code_simp
  show ?thesis
    using pooled_encode_equals_pure [of cfg0 enc0 testlib "[97, 98, 99, 100, 101]"] enc0_new v
    by blast
qed

text \<open>
  Claim C9. Every vector that an operation returns is well-formed, which includes the
  padding invariant: \<open>New\<close>, \<open>FromWords\<close>, \<open>Bundle\<close>, \<open>Random\<close> and the pure-functional
  \<open>Encode\<close> whatever their arguments; \<open>Clone\<close>, \<open>Permute\<close> and \<open>Bind\<close> on well-formed
  vectors; the pooled \<open>Encode\<close> on an encoder that satisfies \<open>encOK\<close>. In a well-formed
  vector no bit at position \<open>D\<close> or beyond is set.
\<close>

theorem padding_invariant:
  "(\<forall>d v. New d = Inr v \<longrightarrow> valid v) \<and>
   (\<forall>d ws v. FromWords d ws = Inr v \<longrightarrow> valid v) \<and>
   (\<forall>a. valid a \<longrightarrow> valid (Clone a)) \<and>
   (\<forall>a v. valid a \<and> Permute a = Inr v \<longrightarrow> valid v) \<and>
   (\<forall>vecs v. Bundle vecs = Inr v \<longrightarrow> valid v) \<and>
   (\<forall>a b v. valid a \<and> valid b \<and> Bind a b = Inr v \<longrightarrow> valid v) \<and>
   (\<forall>lib d seed v. Random lib d seed = Inr v \<longrightarrow> valid v) \<and>
   (\<forall>lib e text v e'. Encode lib e text = Some (Inr (v, e')) \<longrightarrow> valid v) \<and>
   (\<forall>lib e text v e'. encOK e \<and> Encode_pooled lib e text = Some (Inr (v, e')) \<longrightarrow> valid v) \<and>
   (\<forall>v i. valid v \<and> dims v \<le> int i \<longrightarrow> paddingZero v \<and> \<not> vbit v i)"
proof (intro conjI allI impI)
  show "valid v" if "New d = Inr v" for d v
    using that by (rule New_valid)
  show "valid v" if "FromWords d ws = Inr v" for d ws v
    using that by (rule FromWords_valid)
  show "valid (Clone a)" if "valid a" for a
    using that by (simp add: Clone_id)
  show "valid v" if "valid a \<and> Permute a = Inr v" for a v
    using that Permute_valid [of a] by auto
  show "valid v" if "Bundle vecs = Inr v" for vecs v
    using Bundle_returns_valid [OF that] by simp
  show "valid v" if "valid a \<and> valid b \<and> Bind a b = Inr v" for a b v
    using that Bind_valid [of a b v] by simp
  show "valid v" if "Random lib d seed = Inr v" for lib d seed v
    using Random_valid [OF that] by simp
  show "valid v" if "Encode lib e text = Some (Inr (v, e'))" for lib e "text" v e'
    using that by (rule Encode_returns_valid)
  show "valid v" if "encOK e \<and> Encode_pooled lib e text = Some (Inr (v, e'))" for lib e "text" v e'
    using that Encode_pooled_eq [of e lib "text"] Encode_returns_valid [of lib e "text" v e']
    by simp
  show "paddingZero v" if "valid v \<and> dims v \<le> int i" for v i
    using that by (simp add: valid_def)
  show "\<not> vbit v i" if "valid v \<and> dims v \<le> int i" for v i
    using that valid_vbit_bound [of v i] by auto
qed

theorem padding_invariant_witness:
  "FromWords 65 [1, 255] = Inr \<lparr>dims = 65, data = [1, 1]\<rparr> \<and>
   valid \<lparr>dims = 65, data = [1, 1]\<rparr> \<and>
   Permute \<lparr>dims = 65, data = [1, 1]\<rparr> = Inr \<lparr>dims = 65, data = [9223372036854775808, 1]\<rparr> \<and>
   valid \<lparr>dims = 65, data = [9223372036854775808, 1]\<rparr> \<and>
   Bind \<lparr>dims = 65, data = [1, 1]\<rparr> \<lparr>dims = 65, data = [9223372036854775808, 1]\<rparr>
     = Inr \<lparr>dims = 65, data = [9223372036854775809, 0]\<rparr> \<and>
   valid \<lparr>dims = 65, data = [9223372036854775809, 0]\<rparr> \<and>
   Random testlib 65 255 = Inr \<lparr>dims = 65, data = [255, 1]\<rparr> \<and>
   valid \<lparr>dims = 65, data = [255, 1]\<rparr> \<and>
   encOK enc0 \<and>
   map_option (map_sum id fst) (Encode_pooled testlib enc0 [97, 98, 99, 100, 101])
     = Some (Inr \<lparr>dims = 65, data = [148319109732, 1]\<rparr>) \<and>
   valid \<lparr>dims = 65, data = [148319109732, 1]\<rparr> \<and>
   \<not> vbit \<lparr>dims = 65, data = [148319109732, 1]\<rparr> 65"
proof -
  note pF = padding_invariant [THEN conjunct2, THEN conjunct1, rule_format]
  note pP = padding_invariant [THEN conjunct2, THEN conjunct2, THEN conjunct2, THEN conjunct1, rule_format]
  note pB = padding_invariant [THEN conjunct2, THEN conjunct2, THEN conjunct2, THEN conjunct2, THEN conjunct2, THEN conjunct1, rule_format]
  note pR = padding_invariant [THEN conjunct2, THEN conjunct2, THEN conjunct2, THEN conjunct2, THEN conjunct2, THEN conjunct2, THEN conjunct1, rule_format]
  note pE = padding_invariant [THEN conjunct2, THEN conjunct2, THEN conjunct2, THEN conjunct2, THEN conjunct2, THEN conjunct2, THEN conjunct2, THEN conjunct2, THEN conjunct1, rule_format]
  note pN = padding_invariant [THEN conjunct2, THEN conjunct2, THEN conjunct2, THEN conjunct2, THEN conjunct2, THEN conjunct2, THEN conjunct2, THEN conjunct2, THEN conjunct2, rule_format]
  have f: "FromWords 65 [1, 255] = Inr \<lparr>dims = 65, data = [1, 1]\<rparr>" by code_simp
  have v1: "valid \<lparr>dims = 65, data = [1, 1]\<rparr>" using pF [OF f] .
  have pm: "Permute \<lparr>dims = 65, data = [1, 1]\<rparr> = Inr \<lparr>dims = 65, data = [9223372036854775808, 1]\<rparr>" by code_simp
  have v2: "valid \<lparr>dims = 65, data = [9223372036854775808, 1]\<rparr>" using pP [OF conjI [OF v1 pm]] .
  have b: "Bind \<lparr>dims = 65, data = [1, 1]\<rparr> \<lparr>dims = 65, data = [9223372036854775808, 1]\<rparr>
     = Inr \<lparr>dims = 65, data = [9223372036854775809, 0]\<rparr>" by code_simp
  have v3: "valid \<lparr>dims = 65, data = [9223372036854775809, 0]\<rparr>" using pB [OF conjI [OF v1 conjI [OF v2 b]]] .
  have r: "Random testlib 65 255 = Inr \<lparr>dims = 65, data = [255, 1]\<rparr>" by code_simp
  have v4: "valid \<lparr>dims = 65, data = [255, 1]\<rparr>" using pR [OF r] .
  have e: "encOK enc0" using enc0_new by (rule NewNGramEncoder_encOK)
  have m: "map_option (map_sum id fst) (Encode_pooled testlib enc0 [97, 98, 99, 100, 101])
     = Some (Inr \<lparr>dims = 65, data = [148319109732, 1]\<rparr>)" by code_simp
  then obtain e' where enc:
    "Encode_pooled testlib enc0 [97, 98, 99, 100, 101]
       = Some (Inr (\<lparr>dims = 65, data = [148319109732, 1]\<rparr>, e'))"
    by (cases "Encode_pooled testlib enc0 [97, 98, 99, 100, 101]")
       (auto simp: map_sum_def split: sum.splits)
  have v5: "valid \<lparr>dims = 65, data = [148319109732, 1]\<rparr>" using pE [OF conjI [OF e enc]] .
  have nb: "\<not> vbit \<lparr>dims = 65, data = [148319109732, 1]\<rparr> 65"
    using pN [of "\<lparr>dims = 65, data = [148319109732, 1]\<rparr>" 65] v5 by simp
  show ?thesis using f v1 pm v2 b v3 r v4 e m v5 nb by (intro conjI)
qed






lemma MoveToFront_split:
  assumes "distinct (map fst (pre @ (h, e) # post))"
  shows "MoveToFront h (pre @ (h, e) # post) = (h, e) # pre @ post"
proof -
  have m: "map_of (pre @ (h, e) # post) h = Some e"
    using assms by (intro map_of_is_SomeI) auto
  have "h \<notin> fst ` set pre" and "h \<notin> fst ` set post" using assms by auto
  then have "filter (\<lambda>p. fst p \<noteq> h) pre = pre" and "filter (\<lambda>p. fst p \<noteq> h) post = post"
    by (auto simp: filter_id_conv)
  then have "list_Remove h (pre @ (h, e) # post) = pre @ post"
    by (simp add: list_Remove_def)
  then show ?thesis unfolding MoveToFront_def m by simp
qed









lemma cacheInv_lookup:
  assumes "cacheInv c" and "index c k = Some h"
  obtains pre e post where "lru c = pre @ (h, e) # post" and "key e = k"
    and "h \<notin> fst ` set pre" and "h \<notin> fst ` set post"
proof -
  obtain e where e: "(h, e) \<in> set (lru c)" "key e = k"
    using assms by (auto simp: cacheInv_def)
  then obtain pre post where s: "lru c = pre @ (h, e) # post"
    by (meson split_list)
  have "distinct (map fst (pre @ (h, e) # post))"
    using assms(1) s by (simp add: cacheInv_def)
  then have "h \<notin> fst ` set pre" and "h \<notin> fst ` set post" by auto
  then show thesis using s e(2) that by blast
qed

lemma map_update_other:
  "h \<notin> fst ` set l \<Longrightarrow> map (\<lambda>p. if fst p = h then (h, f (snd p)) else p) l = l"
  by (induction l) auto

lemma Set_present:
  assumes inv: "cacheInv c" and ix: "index c k = Some h"
  shows "\<exists>pre e post. lru c = pre @ (h, e) # post \<and> key e = k \<and>
           Set now k v c =
             c\<lparr>sets := sets c + 1,
               lru := (h, e\<lparr>vec := enc c k, val := v, ts := now\<rparr>) # pre @ post\<rparr>"
proof -
  obtain pre e post where s: "lru c = pre @ (h, e) # post" "key e = k"
    "h \<notin> fst ` set pre" "h \<notin> fst ` set post"
    using inv ix by (rule cacheInv_lookup)
  let ?e' = "e\<lparr>vec := enc c k, val := v, ts := now\<rparr>"
  let ?upd = "\<lambda>p. if fst p = h then (h, (snd p)\<lparr>vec := enc c k, val := v, ts := now\<rparr>) else p"
  have m: "map ?upd (lru c) = pre @ (h, ?e') # post"
    using map_update_other [OF s(3), of "\<lambda>x. x\<lparr>vec := enc c k, val := v, ts := now\<rparr>"]
      map_update_other [OF s(4), of "\<lambda>x. x\<lparr>vec := enc c k, val := v, ts := now\<rparr>"]
    by (simp add: s(1))
  have d: "distinct (map fst (pre @ (h, ?e') # post))"
    using inv s(1) by (simp add: cacheInv_def)
  have "MoveToFront h (map ?upd (lru c)) = (h, ?e') # pre @ post"
    unfolding m using d by (rule MoveToFront_split)
  then have "Set now k v c = c\<lparr>sets := sets c + 1, lru := (h, ?e') # pre @ post\<rparr>"
    using ix by (simp add: Set_def)
  then show ?thesis using s(1,2) by blast
qed

lemma list_Remove_last:
  assumes "distinct (map fst (rest @ [(h, e)]))"
  shows "list_Remove h (rest @ [(h, e)]) = rest"
proof -
  have "h \<notin> fst ` set rest" using assms by auto
  then have "filter (\<lambda>p. fst p \<noteq> h) rest = rest" by (auto simp: filter_id_conv)
  then show ?thesis by (simp add: list_Remove_def)
qed

lemma Set_absent_full:
  assumes inv: "cacheInv c" and ix: "index c k = None"
    and full: "capacity c \<le> int (length (lru c))" and cap: "0 < capacity c"
  shows "\<exists>rest h e. lru c = rest @ [(h, e)] \<and>
           Set now k v c =
             c\<lparr>sets := sets c + 1,
               index := ((index c)(key e := None))(k \<mapsto> nextElem c),
               lru := (nextElem c, \<lparr>key = k, vec = enc c k, val = v, ts = now\<rparr>) # rest,
               nextElem := Suc (nextElem c)\<rparr>"
proof -
  have ne: "lru c \<noteq> []" using full cap by auto
  then obtain rest x where s: "lru c = rest @ [x]" by (meson rev_exhaust)
  obtain h e where x: "x = (h, e)" by (cases x)
  have d: "distinct (map fst (rest @ [(h, e)]))"
    using inv s x by (simp add: cacheInv_def)
  have r: "list_Remove h (rest @ [(h, e)]) = rest" using d by (rule list_Remove_last)
  have "Set now k v c =
             c\<lparr>sets := sets c + 1,
               index := ((index c)(key e := None))(k \<mapsto> nextElem c),
               lru := (nextElem c, \<lparr>key = k, vec = enc c k, val = v, ts = now\<rparr>) # rest,
               nextElem := Suc (nextElem c)\<rparr>"
    using ix full ne r s x by (simp add: Set_def evictLocked_def removeLocked_def Let_def)
  then show ?thesis using s x by blast
qed

lemma Set_absent_room:
  assumes ix: "index c k = None" and room: "int (length (lru c)) < capacity c"
  shows "Set now k v c =
             c\<lparr>sets := sets c + 1,
               index := (index c)(k \<mapsto> nextElem c),
               lru := (nextElem c, \<lparr>key = k, vec = enc c k, val = v, ts = now\<rparr>) # lru c,
               nextElem := Suc (nextElem c)\<rparr>"
  using assms by (simp add: Set_def Let_def)

lemma cacheInv_key_handle:
  assumes "cacheInv c" and "(h1, e1) \<in> set (lru c)" and "(h2, e2) \<in> set (lru c)"
    and "key e1 = key e2"
  shows "h1 = h2"
proof -
  have "index c (key e1) = Some h1" and "index c (key e1) = Some h2"
    using assms by (auto simp: cacheInv_def)
  then show ?thesis by simp
qed

lemma cacheInv_handle_entry:
  assumes "cacheInv c" and "(h, e1) \<in> set (lru c)" and "(h, e2) \<in> set (lru c)"
  shows "e1 = e2"
  using assms by (auto simp: cacheInv_def dest: eq_key_imp_eq_value)

lemma cacheInv_reorder:
  assumes inv: "cacheInv c" and s: "lru c = pre @ (h, e) # post" and k: "key e' = key e"
  shows "cacheInv (c\<lparr>lru := (h, e') # pre @ post\<rparr>)"
proof -
  have d: "distinct (map fst (pre @ (h, e) # post))" using inv s by (simp add: cacheInv_def)
  have ix: "\<And>k' h'. (index c k' = Some h') = (\<exists>x. (h', x) \<in> set (pre @ (h, e) # post) \<and> key x = k')"
    using inv s by (simp add: cacheInv_def)
  have nx: "\<forall>p \<in> set (pre @ (h, e) # post). fst p < nextElem c"
    using inv s by (simp add: cacheInv_def)
  have hp: "h \<notin> fst ` set pre" "h \<notin> fst ` set post" using d by auto
  have "(\<exists>x. (h', x) \<in> set ((h, e') # pre @ post) \<and> key x = k')
          = (\<exists>x. (h', x) \<in> set (pre @ (h, e) # post) \<and> key x = k')" for h' k'
    using hp k by (cases "h' = h") (auto simp: image_iff)
  then have "\<And>k' h'. (index c k' = Some h') = (\<exists>x. (h', x) \<in> set ((h, e') # pre @ post) \<and> key x = k')"
    using ix by simp
  moreover have "distinct (map fst ((h, e') # pre @ post))" using d by auto
  moreover have "\<forall>p \<in> set ((h, e') # pre @ post). fst p < nextElem c" using nx by auto
  ultimately show ?thesis by (simp add: cacheInv_def)
qed

lemma cacheInv_remove:
  assumes inv: "cacheInv c" and s: "lru c = pre @ (h, e) # post"
  shows "cacheInv (c\<lparr>index := (index c)(key e := None), lru := pre @ post\<rparr>)"
proof -
  have d: "distinct (map fst (pre @ (h, e) # post))" using inv s by (simp add: cacheInv_def)
  have ix: "\<And>k' h'. (index c k' = Some h') = (\<exists>x. (h', x) \<in> set (lru c) \<and> key x = k')"
    using inv by (simp add: cacheInv_def)
  have nx: "\<forall>p \<in> set (pre @ (h, e) # post). fst p < nextElem c"
    using inv s by (simp add: cacheInv_def)
  have hp: "h \<notin> fst ` set pre" "h \<notin> fst ` set post" using d by auto
  have mem: "(h, e) \<in> set (lru c)" using s by simp
  have "(((index c)(key e := None)) k' = Some h')
          = (\<exists>x. (h', x) \<in> set (pre @ post) \<and> key x = k')" for k' h'
  proof (cases "k' = key e")
    case True
    have "\<not> (\<exists>x. (h', x) \<in> set (pre @ post) \<and> key x = key e)"
    proof
      assume "\<exists>x. (h', x) \<in> set (pre @ post) \<and> key x = key e"
      then obtain x where x: "(h', x) \<in> set (pre @ post)" "key x = key e" by blast
      then have "(h', x) \<in> set (lru c)" using s by auto
      then have "h' = h" using cacheInv_key_handle [OF inv _ mem x(2)] by simp
      then show False using x(1) hp by (auto simp: image_iff)
    qed
    then show ?thesis using True by simp
  next
    case False
    have "(\<exists>x. (h', x) \<in> set (lru c) \<and> key x = k')
            = (\<exists>x. (h', x) \<in> set (pre @ post) \<and> key x = k')"
      using False s by auto
    then show ?thesis using False ix by simp
  qed
  moreover have "distinct (map fst (pre @ post))" using d by auto
  moreover have "\<forall>p \<in> set (pre @ post). fst p < nextElem c" using nx by auto
  ultimately show ?thesis by (simp add: cacheInv_def)
qed

lemma cacheInv_push:
  assumes inv: "cacheInv c" and ix: "index c k = None" and e: "key e = k"
  shows "cacheInv (c\<lparr>index := (index c)(k \<mapsto> nextElem c), lru := (nextElem c, e) # lru c,
                     nextElem := Suc (nextElem c)\<rparr>)"
proof -
  have d: "distinct (map fst (lru c))" using inv by (simp add: cacheInv_def)
  have i: "\<And>k' h'. (index c k' = Some h') = (\<exists>x. (h', x) \<in> set (lru c) \<and> key x = k')"
    using inv by (simp add: cacheInv_def)
  have nx: "\<forall>p \<in> set (lru c). fst p < nextElem c" using inv by (simp add: cacheInv_def)
  have fresh: "nextElem c \<notin> fst ` set (lru c)" using nx by auto
  have nok: "\<not> (\<exists>h' x. (h', x) \<in> set (lru c) \<and> key x = k)"
    using i [of k] ix by auto
  have "(((index c)(k \<mapsto> nextElem c)) k' = Some h')
          = (\<exists>x. (h', x) \<in> set ((nextElem c, e) # lru c) \<and> key x = k')" for k' h'
  proof (cases "k' = k")
    case True
    then show ?thesis using nok e by auto
  next
    case False
    then show ?thesis using i [of k' h'] e by auto
  qed
  moreover have "distinct (map fst ((nextElem c, e) # lru c))" using d fresh by simp
  moreover have "\<forall>p \<in> set ((nextElem c, e) # lru c). fst p < Suc (nextElem c)"
    using nx by auto
  ultimately show ?thesis by (simp add: cacheInv_def)
qed

lemma cacheInv_fields:
  "cacheInv (c\<lparr>sets := x\<rparr>) = cacheInv c"
  "cacheInv (c\<lparr>hits := y\<rparr>) = cacheInv c"
  "cacheInv (c\<lparr>misses := z\<rparr>) = cacheInv c"
  "cacheInv (c\<lparr>simSum := w\<rparr>) = cacheInv c"
  by (simp_all add: cacheInv_def)
















lemma cacheInv_cacheAB: "cacheInv cacheAB"
  unfolding cacheInv_def by (auto simp: cacheAB_def)

text \<open>
  Claim C2. In a cache whose index and list agree (\<open>cacheInv\<close>, which every state reached
  from \<open>New\<close> satisfies) and whose capacity is positive, \<open>Set now k v\<close> does the following.
  If \<open>k\<close> is indexed at element \<open>h\<close>, the list holds \<open>h\<close> with an entry of key \<open>k\<close>; the result
  is the same cache with \<open>sets\<close> incremented and that element moved to the front with its
  vector, value and timestamp replaced; the other elements keep their order, the index
  is unchanged and so is the number of entries. If \<open>k\<close> is absent and the list is at
  capacity, the last element of the list is removed together with the index entry of its
  key, and a new element holding \<open>k\<close>, the encoded vector, \<open>v\<close> and \<open>now\<close> is put at the front
  and indexed under \<open>k\<close>; \<open>sets\<close> is incremented. If \<open>k\<close> is absent and there is room, the new
  element is put at the front and indexed, with nothing evicted. The result satisfies
  \<open>cacheInv\<close> again.
\<close>

theorem Set_update_or_insert:
  assumes "cacheInv c" and "0 < capacity c"
  shows "(\<forall>h. index c k = Some h \<longrightarrow>
            (\<exists>pre e post. lru c = pre @ (h, e) # post \<and> key e = k \<and>
               Set now k v c =
                 c\<lparr>sets := sets c + 1,
                   lru := (h, e\<lparr>vec := enc c k, val := v, ts := now\<rparr>) # pre @ post\<rparr> \<and>
               Len (Set now k v c) = Len c)) \<and>
         (index c k = None \<and> capacity c \<le> Len c \<longrightarrow>
            (\<exists>rest h e. lru c = rest @ [(h, e)] \<and>
               Set now k v c =
                 c\<lparr>sets := sets c + 1,
                   index := ((index c)(key e := None))(k \<mapsto> nextElem c),
                   lru := (nextElem c, \<lparr>key = k, vec = enc c k, val = v, ts = now\<rparr>) # rest,
                   nextElem := Suc (nextElem c)\<rparr>)) \<and>
         (index c k = None \<and> Len c < capacity c \<longrightarrow>
            Set now k v c =
              c\<lparr>sets := sets c + 1,
                index := (index c)(k \<mapsto> nextElem c),
                lru := (nextElem c, \<lparr>key = k, vec = enc c k, val = v, ts = now\<rparr>) # lru c,
                nextElem := Suc (nextElem c)\<rparr>) \<and>
         cacheInv (Set now k v c)"
proof (intro conjI allI impI)
  fix h assume ix: "index c k = Some h"
  obtain pre e post where s: "lru c = pre @ (h, e) # post" "key e = k"
    "Set now k v c = c\<lparr>sets := sets c + 1,
                        lru := (h, e\<lparr>vec := enc c k, val := v, ts := now\<rparr>) # pre @ post\<rparr>"
    using Set_present [OF assms(1) ix] by blast
  have "Len (Set now k v c) = Len c" by (simp add: Len_def s(1,3))
  then show "\<exists>pre e post. lru c = pre @ (h, e) # post \<and> key e = k \<and>
               Set now k v c =
                 c\<lparr>sets := sets c + 1,
                   lru := (h, e\<lparr>vec := enc c k, val := v, ts := now\<rparr>) # pre @ post\<rparr> \<and>
               Len (Set now k v c) = Len c"
    using s by blast
next
  assume a: "index c k = None \<and> capacity c \<le> Len c"
  then show "\<exists>rest h e. lru c = rest @ [(h, e)] \<and>
               Set now k v c =
                 c\<lparr>sets := sets c + 1,
                   index := ((index c)(key e := None))(k \<mapsto> nextElem c),
                   lru := (nextElem c, \<lparr>key = k, vec = enc c k, val = v, ts = now\<rparr>) # rest,
                   nextElem := Suc (nextElem c)\<rparr>"
    using Set_absent_full [OF assms(1), of k now v] assms(2) by (simp add: Len_def)
next
  assume a: "index c k = None \<and> Len c < capacity c"
  then show "Set now k v c =
              c\<lparr>sets := sets c + 1,
                index := (index c)(k \<mapsto> nextElem c),
                lru := (nextElem c, \<lparr>key = k, vec = enc c k, val = v, ts = now\<rparr>) # lru c,
                nextElem := Suc (nextElem c)\<rparr>"
    using Set_absent_room [of c k now v] by (simp add: Len_def)
next
  show "cacheInv (Set now k v c)"
  proof (cases "index c k")
    case (Some h)
    obtain pre e post where s: "lru c = pre @ (h, e) # post" "key e = k"
      "Set now k v c = c\<lparr>sets := sets c + 1,
                          lru := (h, e\<lparr>vec := enc c k, val := v, ts := now\<rparr>) # pre @ post\<rparr>"
      using Set_present [OF assms(1) Some] by blast
    have "cacheInv (c\<lparr>lru := (h, e\<lparr>vec := enc c k, val := v, ts := now\<rparr>) # pre @ post\<rparr>)"
      using cacheInv_reorder [OF assms(1) s(1)] by simp
    then show ?thesis by (simp add: s(3) cacheInv_def)
  next
    case None
    let ?new = "\<lparr>key = k, vec = enc c k, val = v, ts = now\<rparr>"
    show ?thesis
    proof (cases "capacity c \<le> int (length (lru c))")
      case True
      obtain rest h e where s: "lru c = rest @ [(h, e)]"
        "Set now k v c =
             c\<lparr>sets := sets c + 1,
               index := ((index c)(key e := None))(k \<mapsto> nextElem c),
               lru := (nextElem c, ?new) # rest,
               nextElem := Suc (nextElem c)\<rparr>"
        using Set_absent_full [OF assms(1) None True assms(2)] by blast
      let ?c1 = "c\<lparr>index := (index c)(key e := None), lru := rest @ []\<rparr>"
      have i1: "cacheInv ?c1"
        using cacheInv_remove [OF assms(1), of rest h e "[]"] s(1) by simp
      have mem: "(h, e) \<in> set (lru c)" using s(1) by simp
      have "index c (key e) = Some h"
        using assms(1) mem unfolding cacheInv_def by blast
      then have ke: "key e \<noteq> k" using None by auto
      have n1: "index ?c1 k = None" using None ke by simp
      have "cacheInv (?c1\<lparr>index := (index ?c1)(k \<mapsto> nextElem ?c1),
                           lru := (nextElem ?c1, ?new) # lru ?c1,
                           nextElem := Suc (nextElem ?c1)\<rparr>)"
        by (rule cacheInv_push [OF i1 n1]) simp
      then show ?thesis by (simp add: s(2) cacheInv_def)
    next
      case False
      then have room: "int (length (lru c)) < capacity c" by simp
      have s: "Set now k v c =
             c\<lparr>sets := sets c + 1,
               index := (index c)(k \<mapsto> nextElem c),
               lru := (nextElem c, ?new) # lru c,
               nextElem := Suc (nextElem c)\<rparr>"
        using Set_absent_room [OF None room] .
      have "cacheInv (c\<lparr>index := (index c)(k \<mapsto> nextElem c),
                           lru := (nextElem c, ?new) # lru c,
                           nextElem := Suc (nextElem c)\<rparr>)"
        by (rule cacheInv_push [OF assms(1) None]) simp
      then show ?thesis by (simp add: s cacheInv_def)
    qed
  qed
qed

theorem Set_update_or_insert_witness:
  "cacheInv cacheAB \<and> 0 < capacity cacheAB \<and>
   index cacheAB ''a'' = Some 0 \<and>
   map (\<lambda>p. (fst p, key (snd p), val (snd p), ts (snd p))) (lru (Set 5 ''a'' 11 cacheAB))
     = [(0, ''a'', 11, 5), (1, ''b'', 20, 1)] \<and>
   sets (Set 5 ''a'' 11 cacheAB) = 3 \<and> Len (Set 5 ''a'' 11 cacheAB) = 2 \<and>
   index cacheAB ''c'' = None \<and> capacity cacheAB \<le> Len cacheAB \<and>
   map (\<lambda>p. (fst p, key (snd p), val (snd p), ts (snd p))) (lru (Set 5 ''c'' 30 cacheAB))
     = [(2, ''c'', 30, 5), (1, ''b'', 20, 1)] \<and>
   index (Set 5 ''c'' 30 cacheAB) ''a'' = None \<and>
   index (Set 5 ''c'' 30 cacheAB) ''c'' = Some 2 \<and>
   sets (Set 5 ''c'' 30 cacheAB) = 3 \<and>
   cacheInv (Set 5 ''c'' 30 cacheAB)"
proof -
  have h1: "cacheInv cacheAB" by (rule cacheInv_cacheAB)
  have h2: "0 < capacity cacheAB" by (simp add: cacheAB_def)
  have ia: "index cacheAB ''a'' = Some 0" by (simp add: cacheAB_def)
  have ic: "index cacheAB ''c'' = None \<and> capacity cacheAB \<le> Len cacheAB"
    by (simp add: cacheAB_def Len_def)
  note A = Set_update_or_insert [OF h1 h2, of "''a''" 5 11]
  note C = Set_update_or_insert [OF h1 h2, of "''c''" 5 30]
  obtain pre e post where p: "lru cacheAB = pre @ (0, e) # post"
    "Set 5 ''a'' 11 cacheAB =
       cacheAB\<lparr>sets := sets cacheAB + 1,
         lru := (0, e\<lparr>vec := enc cacheAB ''a'', val := 11, ts := 5\<rparr>) # pre @ post\<rparr>"
    using A ia by blast
  have pe: "pre = [(1, \<lparr>key = ''b'', vec = \<lparr>dims = 4, data = [1]\<rparr>, val = 20, ts = 1\<rparr>)] \<and>
            e = \<lparr>key = ''a'', vec = \<lparr>dims = 4, data = [1]\<rparr>, val = 10, ts = 0\<rparr> \<and> post = []"
    using p(1) by (auto simp: cacheAB_def Cons_eq_append_conv)
  have a: "map (\<lambda>p. (fst p, key (snd p), val (snd p), ts (snd p))) (lru (Set 5 ''a'' 11 cacheAB))
             = [(0, ''a'', 11, 5), (1, ''b'', 20, 1)] \<and>
           sets (Set 5 ''a'' 11 cacheAB) = 3 \<and> Len (Set 5 ''a'' 11 cacheAB) = 2"
    unfolding p(2) using pe by (simp add: cacheAB_def Len_def)
  obtain rest h e' where q: "lru cacheAB = rest @ [(h, e')]"
    "Set 5 ''c'' 30 cacheAB =
       cacheAB\<lparr>sets := sets cacheAB + 1,
         index := ((index cacheAB)(key e' := None))(''c'' \<mapsto> nextElem cacheAB),
         lru := (nextElem cacheAB, \<lparr>key = ''c'', vec = enc cacheAB ''c'', val = 30, ts = 5\<rparr>) # rest,
         nextElem := Suc (nextElem cacheAB)\<rparr>"
    using C ic by blast
  have qe: "rest = [(1, \<lparr>key = ''b'', vec = \<lparr>dims = 4, data = [1]\<rparr>, val = 20, ts = 1\<rparr>)] \<and>
            e' = \<lparr>key = ''a'', vec = \<lparr>dims = 4, data = [1]\<rparr>, val = 10, ts = 0\<rparr>"
    using q(1) by (auto simp: cacheAB_def Cons_eq_append_conv append_eq_Cons_conv)
  have c: "map (\<lambda>p. (fst p, key (snd p), val (snd p), ts (snd p))) (lru (Set 5 ''c'' 30 cacheAB))
             = [(2, ''c'', 30, 5), (1, ''b'', 20, 1)] \<and>
           index (Set 5 ''c'' 30 cacheAB) ''a'' = None \<and>
           index (Set 5 ''c'' 30 cacheAB) ''c'' = Some 2 \<and>
           sets (Set 5 ''c'' 30 cacheAB) = 3"
    unfolding q(2) using qe by (simp add: cacheAB_def)
  have i: "cacheInv (Set 5 ''c'' 30 cacheAB)" using C by blast
  show ?thesis using h1 h2 ia ic a c i by blast
qed








end
